theory Spec2Isabelle
  imports Main "HOL-Library.Char_ord" "HOL-Library.List_Lexorder" "HOL-Library.AList"
begin

section \<open>The host process: unhandled promise rejections\<close>

text \<open>
  \<^verbatim>\<open>process.on('unhandledRejection', error => { ... })\<close> in the server's main
  module. The handler looks at \<^verbatim>\<open>error?.constructor\<close>: the reason of a rejection may
  be any value, also \<^verbatim>\<open>undefined\<close> or \<^verbatim>\<open>null\<close>, which have no constructor.
\<close>

datatype error_class = RPCResultError | PluginError | OtherClass string

record rejection =
  constructor :: "error_class option"
  message :: string

datatype console_line = ConsoleError string | ConsoleWarn string | ConsoleLog string

datatype 'e outcome = Continues | Throws 'e

text \<open>
  The console lines written and how the handler ends: by returning, so that the host
  goes on, or by throwing the reason out of the event handler, which no
  \<^verbatim>\<open>uncaughtException\<close> listener of the host catches.
\<close>

definition unhandledRejection :: "rejection \<Rightarrow> console_line list \<times> rejection outcome" where
  "unhandledRejection error =
     (if constructor error \<noteq> Some RPCResultError \<and> constructor error \<noteq> Some PluginError
      then ([ConsoleError ''pending crash''], Throws error)
      else ([ConsoleWarn ''unhandled rejection of RPC Result''], Continues))"

section \<open>The runtime's data\<close>

text \<open>
  The property names of \<^verbatim>\<open>ScryptedInterfaceProperty\<close> that the runtime reads and
  writes (the enumeration itself is declared outside the sources at hand).
\<close>

datatype property =
  P_nativeId | P_pluginId | P_providedInterfaces | P_interfaces | P_mixins | P_providerId
  | P_info | P_providedName | P_providedType | P_providedRoom | P_name | P_type | P_room

text \<open>
  The values the runtime keeps in a device's state: \<^verbatim>\<open>undefined\<close>, a string, a list of
  interface names, the list of mixin provider ids (whose entries may be \<^verbatim>\<open>null\<close> in
  a persisted record, here \<open>None\<close>), and the device information object.
\<close>

datatype val =
  VUndefined | VStr string | VStrings "string list" | VMixins "string option list"
  | VInfo string string

text \<open>
  A PluginDevice. Its \<^verbatim>\<open>state\<close> maps a property to an entry holding the value; a
  property without an entry reads as \<^verbatim>\<open>undefined\<close>, so the map is total with
  \<open>VUndefined\<close> for what is absent. The entry's time stamps are left out: nothing here
  reads them. \<^verbatim>\<open>state\<close> itself is \<^verbatim>\<open>undefined\<close> (\<open>None\<close>) on a fresh or a removed
  device. A \<^verbatim>\<open>nativeId\<close> of \<open>None\<close> is \<^verbatim>\<open>undefined\<close> or \<^verbatim>\<open>null\<close>.
\<close>

record PluginDevice =
  pd_id :: string
  pluginId :: string
  nativeId :: "string option"
  stateVersion :: "nat option"
  state :: "(property \<Rightarrow> val) option"

record Plugin =
  plugin_id :: string
  packageName :: string
  packageVersion :: string

text \<open>The device declaration a plugin sends (\<^verbatim>\<open>Device\<close> of the types module).\<close>

record Device =
  d_name :: "string option"
  d_nativeId :: "string option"
  d_type :: "string option"
  d_interfaces :: "string list"
  d_info :: "(string \<times> string) option"
  d_providerNativeId :: "string option"
  d_room :: "string option"

text \<open>
  One entry of a proxy's mixin table: the id of the mixin provider (\<^verbatim>\<open>undefined\<close> on
  the last entry, which is the device itself) and the wrapped object, named by a number.
\<close>

record MixinTableEntry =
  mixinProviderId :: "string option"
  entry :: nat

text \<open>
  The handler behind a device proxy: its device id and its mixin table, \<^verbatim>\<open>undefined\<close>
  until the chain is built and again once it is invalidated.
\<close>

record PluginDeviceProxyHandler =
  handler_id :: string
  mixinTable :: "MixinTableEntry list option"

text \<open>
  A PluginHost object. The runtime compares hosts by identity, so the hosts live in a
  store (a list) and are named by their position in it.
\<close>

record PluginHost =
  host_pluginId :: string
  killed :: bool

text \<open>What the runtime does to the world outside its tables, in the order it does it.\<close>

datatype event =
  Console console_line
  | PropertyEvent string property bool
  | DescriptorChanged string
  | Invalidate string
  | InvalidateEntry string MixinTableEntry
  | RebuildMixinTable string
  | Probe string
  | StateManagerRemoveDevice string
  | WorkerKill nat
  | SetNativeIdRemoved string string

text \<open>
  The persistent store (\<^verbatim>\<open>Level\<close>), an external collaborator: the device records and
  the plugin records by id, and the counter behind \<^verbatim>\<open>nextId\<close>.
\<close>

record Level =
  deviceRecords :: "(string \<times> PluginDevice) list"
  pluginRecords :: "(string \<times> Plugin) list"
  idCounter :: nat

text \<open>
  The runtime: the tables \<^verbatim>\<open>plugins\<close>, \<^verbatim>\<open>pluginDevices\<close> and \<^verbatim>\<open>devices\<close> in the
  order \<^verbatim>\<open>Object.values\<close> walks them, the store of host objects, the plugin volumes on
  disk, the pending restart timers (due time and the host that exited) with the clock
  in milliseconds, and the events so far.
\<close>

record ScryptedRuntime =
  datastore :: Level
  plugins :: "(string \<times> nat) list"
  hosts :: "PluginHost list"
  pluginDevices :: "(string \<times> PluginDevice) list"
  devices :: "(string \<times> PluginDeviceProxyHandler) list"
  volumes :: "string list"
  timers :: "(nat \<times> nat) list"
  now :: nat
  events :: "event list"

section \<open>Device state\<close>

text \<open>\<^verbatim>\<open>getState\<close>: \<^verbatim>\<open>pluginDevice.state?.[property]?.value\<close>.\<close>

definition getState :: "PluginDevice \<Rightarrow> property \<Rightarrow> val" where
  "getState pluginDevice p = (case state pluginDevice of None \<Rightarrow> VUndefined | Some st \<Rightarrow> st p)"

text \<open>
  Modelled from the spec: \<^verbatim>\<open>setState\<close> of the state module, which is not among the
  sources. It compares the value against the last recorded one, records it, and returns
  whether it changed; a device whose state is gone is left alone.
\<close>

definition setState :: "PluginDevice \<Rightarrow> property \<Rightarrow> val \<Rightarrow> bool \<times> PluginDevice" where
  "setState pluginDevice p v =
     (case state pluginDevice of
        None \<Rightarrow> (False, pluginDevice)
      | Some st \<Rightarrow> (st p \<noteq> v, pluginDevice\<lparr>state := Some (st(p := v))\<rparr>))"

text \<open>
  Modelled from the spec: \<^verbatim>\<open>ScryptedStateManager.setPluginDeviceState\<close>, not among the
  sources: the State Manager writes the value with \<^verbatim>\<open>setState\<close> and emits a change
  notification.
\<close>

definition setPluginDeviceState ::
  "property \<Rightarrow> val \<Rightarrow> PluginDevice \<times> event list \<Rightarrow> bool \<times> PluginDevice \<times> event list" where
  "setPluginDeviceState p v = (\<lambda>(pluginDevice, evs).
     let (changed, pluginDevice') = setState pluginDevice p v
     in (changed, pluginDevice', evs @ [PropertyEvent (pd_id pluginDevice) p changed]))"

text \<open>The readers the runtime uses, with the \<^verbatim>\<open>|| []\<close> of the source.\<close>

definition getMixins :: "PluginDevice \<Rightarrow> string option list" where
  "getMixins pluginDevice = (case getState pluginDevice P_mixins of VMixins ms \<Rightarrow> ms | _ \<Rightarrow> [])"

definition getInterfaces :: "PluginDevice \<Rightarrow> string list" where
  "getInterfaces pluginDevice =
     (case getState pluginDevice P_interfaces of VStrings xs \<Rightarrow> xs | _ \<Rightarrow> [])"

definition optStr :: "string option \<Rightarrow> val" where
  "optStr x = (case x of None \<Rightarrow> VUndefined | Some s \<Rightarrow> VStr s)"

text \<open>
  \<^verbatim>\<open>!nativeId\<close>: JavaScript's negation is true of \<^verbatim>\<open>undefined\<close>, of \<^verbatim>\<open>null\<close> and of the
  empty string.
\<close>

definition falsy :: "string option \<Rightarrow> bool" where
  "falsy x = (case x of None \<Rightarrow> True | Some s \<Rightarrow> s = [])"

definition ScryptedPlugin :: string where
  "ScryptedPlugin = ''ScryptedPlugin''"

text \<open>
  Modelled from the spec: \<^verbatim>\<open>PluginDeviceProxyHandler.sortInterfaces\<close>, not among the
  sources. The resolved interfaces are a union (a set: no name twice), sorted
  deterministically; the order is that of JavaScript's default sort on strings.
\<close>

definition sortInterfaces :: "string list \<Rightarrow> string list" where
  "sortInterfaces interfaces = sort (remdups interfaces)"

section \<open>Objects as tables\<close>

text \<open>
  \<^verbatim>\<open>pluginDevices\<close> and \<^verbatim>\<open>devices\<close> are JavaScript objects keyed by device id, and
  \<^verbatim>\<open>Object.keys\<close> and \<^verbatim>\<open>Object.values\<close> walk an object in the order of its own
  properties: first the keys that are array indices (a decimal numeral without leading
  zeros, below \<^verbatim>\<open>2**32 - 1\<close>) in ascending numeric order, then the other keys in the order
  they were created. A table is the list of the properties in that order. Array
  indices are compared as numerals: by length, then digit by digit.
\<close>

definition isArrayIndex :: "string \<Rightarrow> bool" where
  "isArrayIndex k =
     (k \<noteq> [] \<and> list_all (\<lambda>c. c \<in> set ''0123456789'') k \<and> (k = ''0'' \<or> hd k \<noteq> CHR ''0'')
      \<and> (length k < 10 \<or> (length k = 10 \<and> k < ''4294967295'')))"

definition indexLess :: "string \<Rightarrow> string \<Rightarrow> bool" where
  "indexLess a b = (length a < length b \<or> (length a = length b \<and> a < b))"

definition precedes :: "string \<Rightarrow> string \<Rightarrow> bool" where
  "precedes k k' = (isArrayIndex k \<and> (\<not> isArrayIndex k' \<or> indexLess k k'))"

text \<open>
  \<^verbatim>\<open>object[k] = v\<close>: an existing property keeps its place; a new one goes before the
  first property that it precedes, or to the end.
\<close>

fun insertProperty :: "string \<Rightarrow> 'a \<Rightarrow> (string \<times> 'a) list \<Rightarrow> (string \<times> 'a) list" where
  "insertProperty k v [] = [(k, v)]"
| "insertProperty k v ((k', v') # al) =
     (if precedes k k' then (k, v) # (k', v') # al else (k', v') # insertProperty k v al)"

definition setProperty :: "string \<Rightarrow> 'a \<Rightarrow> (string \<times> 'a) list \<Rightarrow> (string \<times> 'a) list" where
  "setProperty k v al = (if k \<in> fst ` set al then AList.update k v al else insertProperty k v al)"

text \<open>The keys of a table are in the order of an object's own properties.\<close>

definition ownPropertyOrder :: "string list \<Rightarrow> bool" where
  "ownPropertyOrder ks = sorted_wrt (\<lambda>a b. \<not> precedes b a) ks"

section \<open>Finding and upserting devices\<close>

text \<open>
  \<^verbatim>\<open>findPluginDevice\<close>: the first device, in table order, of that plugin with that
  native id (\<^verbatim>\<open>==\<close>, under which \<^verbatim>\<open>null\<close> and \<^verbatim>\<open>undefined\<close> are equal and the empty
  string is neither).
\<close>

definition findPluginDevice :: "ScryptedRuntime \<Rightarrow> string \<Rightarrow> string option \<Rightarrow> PluginDevice option" where
  "findPluginDevice s pid nid =
     find (\<lambda>device. pluginId device = pid \<and> nativeId device = nid) (map snd (pluginDevices s))"

definition findPluginDeviceById :: "ScryptedRuntime \<Rightarrow> string \<Rightarrow> PluginDevice option" where
  "findPluginDeviceById s i = map_of (pluginDevices s) i"

text \<open>
  Modelled from the spec: \<^verbatim>\<open>Level.nextId\<close>, not among the sources, generates the opaque
  ids: the next value of a counter, which \<^verbatim>\<open>toString\<close> writes in decimal.
\<close>

fun decimal :: "nat \<Rightarrow> string" where
  "decimal n = (if n < 10 then [char_of (48 + n)] else decimal (n div 10) @ [char_of (48 + n mod 10)])"

declare decimal.simps [simp del]

definition nextId :: "Level \<Rightarrow> nat \<times> Level" where
  "nextId db = (Suc (idCounter db), db\<lparr>idCounter := Suc (idCounter db)\<rparr>)"

text \<open>
  The functions of the infer-defaults module, not among the sources: what a device
  displays as its type, name and room, and the provided values or their defaults.
\<close>

record InferDefaults =
  getDisplayType :: "PluginDevice \<Rightarrow> val"
  getProvidedTypeOrDefault :: "PluginDevice \<Rightarrow> val"
  getDisplayName :: "PluginDevice \<Rightarrow> val"
  getProvidedNameOrDefault :: "PluginDevice \<Rightarrow> val"
  getDisplayRoom :: "PluginDevice \<Rightarrow> val"
  getProvidedRoomOrDefault :: "PluginDevice \<Rightarrow> val"

text \<open>
  \<^verbatim>\<open>this.pluginDevices[pluginDevice._id] = pluginDevice\<close>. The device object is shared
  between the table and the code that mutates it; the model writes the mutated device
  back wherever the table is read next.
\<close>

definition storeDevice :: "PluginDevice \<Rightarrow> ScryptedRuntime \<Rightarrow> ScryptedRuntime" where
  "storeDevice pluginDevice s =
     s\<lparr>pluginDevices := setProperty (pd_id pluginDevice) pluginDevice (pluginDevices s)\<rparr>"

definition setIf :: "bool \<Rightarrow> property \<Rightarrow> val \<Rightarrow> PluginDevice \<times> event list \<Rightarrow> PluginDevice \<times> event list" where
  "setIf b p v x = (if b then snd (setPluginDeviceState p v x) else x)"

text \<open>
  \<^verbatim>\<open>notifyPluginDeviceDescriptorChanged\<close>: the device is upserted into the store, then
  the descriptor events go out.
\<close>

definition notifyPluginDeviceDescriptorChanged :: "PluginDevice \<Rightarrow> ScryptedRuntime \<Rightarrow> ScryptedRuntime" where
  "notifyPluginDeviceDescriptorChanged pluginDevice s =
     s\<lparr>datastore := (datastore s)\<lparr>deviceRecords :=
            AList.update (pd_id pluginDevice) pluginDevice (deviceRecords (datastore s))\<rparr>,
       events := events s @ [DescriptorChanged (pd_id pluginDevice)]\<rparr>"

text \<open>The interface lists \<^verbatim>\<open>upsertDevice\<close> computes, as the source computes them.\<close>

definition providedInterfacesOf :: "Device \<Rightarrow> string list" where
  "providedInterfacesOf device =
     sortInterfaces
       (if falsy (d_nativeId device) then d_interfaces device @ [ScryptedPlugin]
        else filter (\<lambda>iface. iface \<noteq> ScryptedPlugin) (d_interfaces device))"

definition mixinInterfacesOf :: "PluginDevice \<Rightarrow> string list \<Rightarrow> string list" where
  "mixinInterfacesOf pluginDevice providedInterfaces =
     sortInterfaces
       ((if getMixins pluginDevice \<noteq> [] then getInterfaces pluginDevice else []) @ providedInterfaces)"

text \<open>
  \<^verbatim>\<open>upsertDevice(pluginId, device)\<close> in three steps. First the device is found or
  created (\<^verbatim>\<open>new PluginDevice(this.datastore.nextId().toString())\<close>, stamped with the
  state version).
\<close>

definition findOrCreate :: "ScryptedRuntime \<Rightarrow> string \<Rightarrow> Device \<Rightarrow> PluginDevice \<times> ScryptedRuntime" where
  "findOrCreate s pid device =
     (case findPluginDevice s pid (d_nativeId device) of
        Some pluginDevice \<Rightarrow> (pluginDevice, s)
      | None \<Rightarrow>
          let (n, db) = nextId (datastore s)
          in (\<lparr>pd_id = decimal n, pluginId = [], nativeId = None,
                stateVersion = Some 2, state = None\<rparr>,
              s\<lparr>datastore := db\<rparr>))"

text \<open>
  Then the fields and the state of the device are written, in the order of the source;
  the result is \<^verbatim>\<open>interfacesChanged\<close>, the device and the events. The provider is
  looked up in the table, which by then holds the device with its new plugin id and
  native id.
\<close>

definition upsertFields ::
  "InferDefaults \<Rightarrow> string \<Rightarrow> Device \<Rightarrow> PluginDevice \<Rightarrow> ScryptedRuntime
     \<Rightarrow> bool \<times> PluginDevice \<times> event list" where
  "upsertFields dflt pid device found s0 =
    (let pd1 = found\<lparr>pluginId := pid, nativeId := d_nativeId device,
                     state := Some (case state found of None \<Rightarrow> (\<lambda>_. VUndefined) | Some st \<Rightarrow> st)\<rparr>;
         pd2 = (if getState pd1 P_nativeId \<noteq> optStr (nativeId pd1)
                then snd (setState pd1 P_nativeId (optStr (nativeId pd1))) else pd1);
         isUsingDefaultType = (getDisplayType dflt pd2 = getProvidedTypeOrDefault dflt pd2);
         isUsingDefaultName = (getDisplayName dflt pd2 = getProvidedNameOrDefault dflt pd2);
         isUsingDefaultRoom = (getDisplayRoom dflt pd2 = getProvidedRoomOrDefault dflt pd2);
         providedInterfaces = providedInterfacesOf device;
         mixinInterfaces = mixinInterfacesOf pd2 providedInterfaces;
         x1 = snd (setPluginDeviceState P_pluginId (VStr pid) (pd2, events s0));
         (changedProvided, x2) = setPluginDeviceState P_providedInterfaces (VStrings providedInterfaces) x1;
         (changedInterfaces, x3) = setPluginDeviceState P_interfaces (VStrings mixinInterfaces) x2;
         interfacesChanged = (changedInterfaces \<or> changedProvided);
         x4 = (case d_info device of
                 None \<Rightarrow> x3
               | Some (manufacturer, version) \<Rightarrow>
                   snd (setPluginDeviceState P_info (VInfo manufacturer version) x3));
         provider = findPluginDevice (storeDevice (fst x4) s0) pid (d_providerNativeId device);
         x5 = snd (setPluginDeviceState P_providerId (optStr (map_option pd_id provider)) x4);
         x6 = snd (setPluginDeviceState P_providedName (optStr (d_name device)) x5);
         x7 = snd (setPluginDeviceState P_providedType (optStr (d_type device)) x6);
         x8 = setIf isUsingDefaultType P_type (getProvidedTypeOrDefault dflt (fst x7)) x7;
         x9 = setIf isUsingDefaultName P_name (getProvidedNameOrDefault dflt (fst x8)) x8;
         x10 = snd (setPluginDeviceState P_providedRoom (optStr (d_room device)) x9);
         x11 = setIf isUsingDefaultRoom P_room (getProvidedRoomOrDefault dflt (fst x10)) x10
     in (interfacesChanged, x11))"

text \<open>
  Last, the device is in the table under its id and is persisted, and the descriptor
  events go out. The result is \<^verbatim>\<open>interfacesChanged\<close> and the runtime after the call.
\<close>

definition upsertDevice ::
  "InferDefaults \<Rightarrow> string \<Rightarrow> Device \<Rightarrow> ScryptedRuntime \<Rightarrow> bool \<times> ScryptedRuntime" where
  "upsertDevice dflt pid device s =
    (let (found, s0) = findOrCreate s pid device;
         (interfacesChanged, pluginDevice, evs) = upsertFields dflt pid device found s0
     in (interfacesChanged,
         notifyPluginDeviceDescriptorChanged pluginDevice
           (storeDevice pluginDevice (s0\<lparr>events := evs\<rparr>))))"

text \<open>A sequence of calls, each with its plugin id and its declaration.\<close>

fun upsertAll :: "InferDefaults \<Rightarrow> (string \<times> Device) list \<Rightarrow> ScryptedRuntime \<Rightarrow> ScryptedRuntime" where
  "upsertAll dflt [] s = s"
| "upsertAll dflt ((pid, device) # calls) s = upsertAll dflt calls (snd (upsertDevice dflt pid device s))"

section \<open>Well-formed tables\<close>

text \<open>
  \<^verbatim>\<open>pluginDevices\<close> is an object keyed by device id: no key occurs twice, and every
  writer stores a device under its own \<^verbatim>\<open>_id\<close>.
\<close>

definition wfTable :: "ScryptedRuntime \<Rightarrow> bool" where
  "wfTable s = (distinct (map fst (pluginDevices s)) \<and> (\<forall>(k, pd) \<in> set (pluginDevices s). pd_id pd = k))"

text \<open>Every id in the table came from the counter of the store.\<close>

definition freshIds :: "ScryptedRuntime \<Rightarrow> bool" where
  "freshIds s = (\<forall>k \<in> set (map fst (pluginDevices s)). k \<in> set (map decimal [0..<Suc (idCounter (datastore s))]))"

text \<open>The provided interfaces of a device, and the marker on every plugin-root device.\<close>

definition getProvidedInterfaces :: "PluginDevice \<Rightarrow> string list" where
  "getProvidedInterfaces pd = (case getState pd P_providedInterfaces of VStrings xs \<Rightarrow> xs | _ \<Rightarrow> [])"

definition rootsMarked :: "ScryptedRuntime \<Rightarrow> bool" where
  "rootsMarked s = (\<forall>(k, pd) \<in> set (pluginDevices s).
      nativeId pd = None \<longrightarrow> ScryptedPlugin \<in> set (getProvidedInterfaces pd))"

section \<open>Example values\<close>

definition emptyRuntime :: ScryptedRuntime where
  "emptyRuntime = \<lparr>datastore = \<lparr>deviceRecords = [], pluginRecords = [], idCounter = 0\<rparr>,
     plugins = [], hosts = [], pluginDevices = [], devices = [], volumes = [], timers = [],
     now = 0, events = []\<rparr>"

definition exampleDefaults :: InferDefaults where
  "exampleDefaults = \<lparr>getDisplayType = (\<lambda>d. getState d P_type),
     getProvidedTypeOrDefault = (\<lambda>d. getState d P_providedType),
     getDisplayName = (\<lambda>d. getState d P_name),
     getProvidedNameOrDefault = (\<lambda>d. getState d P_providedName),
     getDisplayRoom = (\<lambda>d. getState d P_room),
     getProvidedRoomOrDefault = (\<lambda>d. getState d P_providedRoom)\<rparr>"

text \<open>A declaration with a native id and interfaces, and nothing else of note.\<close>

definition announce :: "string option \<Rightarrow> string list \<Rightarrow> Device" where
  "announce nid ifaces = \<lparr>d_name = Some ''device'', d_nativeId = nid, d_type = None,
     d_interfaces = ifaces, d_info = None, d_providerNativeId = None, d_room = None\<rparr>"

text \<open>A camera of plugin p that has a mixin, and a runtime that holds it.\<close>

definition cameraDevice :: PluginDevice where
  "cameraDevice = \<lparr>pd_id = ''1'', pluginId = ''p'', nativeId = Some ''cam'', stateVersion = Some 2,
     state = Some ((\<lambda>_. VUndefined)(P_mixins := VMixins [Some ''9''], P_interfaces := VStrings [''Battery'']))\<rparr>"

definition cameraRuntime :: ScryptedRuntime where
  "cameraRuntime = emptyRuntime\<lparr>pluginDevices := [(''1'', cameraDevice)],
     datastore := \<lparr>deviceRecords = [(''1'', cameraDevice)], pluginRecords = [], idCounter = 1\<rparr>\<rparr>"

section \<open>Device proxies and mixin tables\<close>

datatype js_error = TypeError string

text \<open>
  \<^verbatim>\<open>getDevice\<close>: the proxy of a device, made on first use and kept under the device's
  id, at the place that the id has among the keys of the object. The result tells
  whether there is a proxy (there is none for an unknown device).
\<close>

definition getDevice :: "string \<Rightarrow> ScryptedRuntime \<Rightarrow> bool \<times> ScryptedRuntime" where
  "getDevice i s =
     (case map_of (devices s) i of
        Some device \<Rightarrow> (True, s)
      | None \<Rightarrow>
          (case map_of (pluginDevices s) i of
             None \<Rightarrow> (False, s\<lparr>events := events s @ [Console (ConsoleWarn ''device not found'')]\<rparr>)
           | Some pluginDevice \<Rightarrow>
               (True, s\<lparr>devices := setProperty i \<lparr>handler_id = i, mixinTable = None\<rparr> (devices s)\<rparr>)))"

text \<open>
  Modelled from the spec: \<^verbatim>\<open>PluginDeviceProxyHandler.invalidate\<close>, not among the
  sources. Invalidation discards the proxy's chain, so that the next access rebuilds it;
  the proxy itself stays.
\<close>

definition invalidatePluginDevice :: "string \<Rightarrow> ScryptedRuntime \<Rightarrow> ScryptedRuntime" where
  "invalidatePluginDevice i s =
     (case map_of (devices s) i of
        None \<Rightarrow> s
      | Some handler \<Rightarrow>
          s\<lparr>devices := AList.update i (handler\<lparr>mixinTable := None\<rparr>) (devices s),
            events := events s @ [Invalidate (handler_id handler)]\<rparr>)"

text \<open>
  Modelled from the spec: \<^verbatim>\<open>PluginDeviceProxyHandler.rebuildMixinTable\<close>, not among the
  sources, makes the proxy rebuild its chain. The call is an event; the chain it builds
  comes later, from the answers of the plugins.
\<close>

definition rebuildPluginDeviceMixinTable :: "string \<Rightarrow> ScryptedRuntime \<Rightarrow> ScryptedRuntime" where
  "rebuildPluginDeviceMixinTable i s =
     (case map_of (devices s) i of
        None \<Rightarrow> s
      | Some handler \<Rightarrow> s\<lparr>events := events s @ [RebuildMixinTable (handler_id handler)]\<rparr>)"

text \<open>\<^verbatim>\<open>Array.prototype.findIndex\<close>, with \<open>None\<close> for \<^verbatim>\<open>-1\<close>.\<close>

fun findIndex :: "('a \<Rightarrow> bool) \<Rightarrow> 'a list \<Rightarrow> nat option" where
  "findIndex P [] = None"
| "findIndex P (x # xs) = (if P x then Some 0 else map_option Suc (findIndex P xs))"

text \<open>
  The first pass of \<^verbatim>\<open>invalidateMixins\<close> works on the set \<^verbatim>\<open>ret\<close> (a list in
  insertion order), the stack \<^verbatim>\<open>remaining\<close> (its top first) and the events. This is
  the body of the inner loop for one device and the id that was popped.
  \<^verbatim>\<open>invalidateEntry\<close> is not among the sources: the release of an entry is an event.
\<close>

type_synonym pass1 = "string list \<times> string list \<times> event list"

definition invalidateIn ::
  "string \<Rightarrow> PluginDeviceProxyHandler \<Rightarrow> pass1 \<Rightarrow> PluginDeviceProxyHandler \<times> pass1" where
  "invalidateIn i handler = (\<lambda>(ret, remaining, evs).
     case mixinTable handler of
       None \<Rightarrow> (handler, ret, remaining, evs)
     | Some table \<Rightarrow>
        (case findIndex (\<lambda>mt. mixinProviderId mt = Some i) table of
           None \<Rightarrow> (handler, ret, remaining, evs)
         | Some foundIndex \<Rightarrow>
            let did = handler_id handler;
                (ret', remaining') =
                   (if did \<in> set ret then (ret, remaining) else (ret @ [did], did # remaining))
            in if foundIndex = length table - 1
               then (handler, ret', remaining',
                     evs @ [Console (ConsoleWarn ''attempt to invalidate mixin on actual device?'')])
               else (handler\<lparr>mixinTable := Some (drop (foundIndex + 1) table)\<rparr>, ret', remaining',
                     evs @ concat (map (\<lambda>removed. [Console (ConsoleLog ''invalidating mixin''),
                                                   InvalidateEntry did removed])
                                    (take (foundIndex + 1) table)))))"

text \<open>The inner loop: \<^verbatim>\<open>for (const device of Object.values(this.devices))\<close>.\<close>

fun scanDevices ::
  "string \<Rightarrow> (string \<times> PluginDeviceProxyHandler) list \<Rightarrow> pass1
     \<Rightarrow> (string \<times> PluginDeviceProxyHandler) list \<times> pass1" where
  "scanDevices i [] acc = ([], acc)"
| "scanDevices i ((k, handler) # ds) acc =
     (let (handler', acc') = invalidateIn i handler acc;
          (ds', acc'') = scanDevices i ds acc'
      in ((k, handler') # ds', acc''))"

text \<open>
  The outer loop pops ids until the stack is empty. It ends: every push puts a new
  handler id into \<^verbatim>\<open>ret\<close>, and there are finitely many handlers.
\<close>

definition handlerIds :: "(string \<times> PluginDeviceProxyHandler) list \<Rightarrow> string set" where
  "handlerIds ds = handler_id ` snd ` set ds"

lemma invalidateIn_id: "handler_id (fst (invalidateIn i h acc)) = handler_id h"
  by (cases acc) (auto simp: invalidateIn_def Let_def split: option.splits)

lemma scanDevices_ids: "map (\<lambda>(k, h). (k, handler_id h)) (fst (scanDevices i ds acc)) = map (\<lambda>(k, h). (k, handler_id h)) ds"
proof (induction ds arbitrary: acc)
  case Nil
  then show ?case by simp
next
  case (Cons d ds)
  obtain k h where d: "d = (k, h)" by (cases d)
  show ?case using Cons[of "snd (invalidateIn i h acc)"]
    by (simp add: d split_def Let_def invalidateIn_id)
qed

lemma scanDevices_handlerIds: "handlerIds (fst (scanDevices i ds acc)) = handlerIds ds"
proof -
  have "handlerIds xs = snd ` set (map (\<lambda>(k, h). (k, handler_id h)) xs)" for xs
    by (force simp: handlerIds_def)
  then show ?thesis by (simp only: scanDevices_ids)
qed

definition weight2 :: "string set \<Rightarrow> string list \<Rightarrow> string list \<Rightarrow> nat" where
  "weight2 A ret remaining = card (A - set ret) + length remaining"

definition weight :: "string set \<Rightarrow> pass1 \<Rightarrow> nat" where
  "weight A = (\<lambda>(ret, remaining, evs). weight2 A ret remaining)"

lemma weight_simp: "weight A (ret, remaining, evs) = weight2 A ret remaining"
  by (simp add: weight_def)

lemma weight2_push:
  assumes "finite A" "x \<in> A" "x \<notin> set ret"
  shows "weight2 A (ret @ [x]) (x # remaining) = weight2 A ret remaining"
proof -
  have "A - set (ret @ [x]) = (A - set ret) - {x}" by auto
  moreover have "x \<in> A - set ret" using assms by simp
  moreover have "finite (A - set ret)" using assms by simp
  ultimately have "card (A - set (ret @ [x])) = card (A - set ret) - 1"
    and "0 < card (A - set ret)"
    by (auto simp: card_Diff_singleton card_gt_0_iff simp del: set_append)
  then show ?thesis unfolding weight2_def by simp
qed

lemma invalidateIn_weight:
  assumes "finite A" "handler_id h \<in> A"
  shows "weight A (snd (invalidateIn i h acc)) = weight A acc"
proof -
  obtain ret remaining evs where acc: "acc = (ret, remaining, evs)" by (cases acc)
  show ?thesis
    unfolding acc invalidateIn_def
    by (simp add: Let_def weight_simp weight2_push[OF assms] split: option.splits)
qed

lemma scanDevices_weight:
  "finite A \<Longrightarrow> handlerIds ds \<subseteq> A \<Longrightarrow> weight A (snd (scanDevices i ds acc)) = weight A acc"
proof (induction ds arbitrary: acc)
  case Nil
  then show ?case by simp
next
  case (Cons d ds)
  obtain k h where d: "d = (k, h)" by (cases d)
  from Cons.prems have h: "handler_id h \<in> A" and ds: "handlerIds ds \<subseteq> A"
    by (auto simp: d handlerIds_def)
  show ?case
    using Cons.IH[OF Cons.prems(1) ds, of "snd (invalidateIn i h acc)"] invalidateIn_weight[OF Cons.prems(1) h, of i acc]
    by (simp add: d split_def Let_def)
qed

text \<open>The first pass: \<^verbatim>\<open>while (remaining.length) { const id = remaining.pop(); ... }\<close>.\<close>

function propagate ::
  "(string \<times> PluginDeviceProxyHandler) list \<Rightarrow> pass1 \<Rightarrow> (string \<times> PluginDeviceProxyHandler) list \<times> pass1" where
  "propagate ds (ret, [], evs) = (ds, (ret, [], evs))"
| "propagate ds (ret, i # remaining, evs) =
     (let (ds', acc') = scanDevices i ds (ret, remaining, evs) in propagate ds' acc')"
  by pat_completeness auto
termination
proof (relation "measure (\<lambda>(ds, acc). weight (handlerIds ds) acc)")
  show "wf (measure (\<lambda>(ds, acc). weight (handlerIds ds) acc))" by simp
next
  fix ds :: "(string \<times> PluginDeviceProxyHandler) list" and ret i remaining evs x xa y
  assume x: "x = scanDevices i ds (ret, remaining, evs)" and xy: "(xa, y) = x"
  have fin: "finite (handlerIds ds)" by (simp add: handlerIds_def)
  have "handlerIds xa = handlerIds ds"
    using scanDevices_handlerIds[of i ds "(ret, remaining, evs)"] x xy by (metis fst_conv)
  moreover have "weight (handlerIds ds) y = weight (handlerIds ds) (ret, remaining, evs)"
    using scanDevices_weight[OF fin subset_refl, of i "(ret, remaining, evs)"] x xy by (metis snd_conv)
  ultimately show "((xa, y), (ds, ret, i # remaining, evs)) \<in> measure (\<lambda>(ds, acc). weight (handlerIds ds) acc)"
    by (simp add: weight_def weight2_def)
qed

text \<open>
  The second pass: \<^verbatim>\<open>for (const id of ret) { this.devices[id].handler.rebuildMixinTable() }\<close>.
  Reading the handler of an id that has no proxy throws.
\<close>

fun rebuildMixinTables :: "string list \<Rightarrow> ScryptedRuntime \<Rightarrow> js_error option \<times> ScryptedRuntime" where
  "rebuildMixinTables [] s = (None, s)"
| "rebuildMixinTables (i # is) s =
     (case map_of (devices s) i of
        None \<Rightarrow> (Some (TypeError ''Cannot read properties of undefined''), s)
      | Some handler \<Rightarrow>
          rebuildMixinTables is (s\<lparr>events := events s @ [RebuildMixinTable (handler_id handler)]\<rparr>))"

text \<open>
  \<^verbatim>\<open>invalidateMixins(ids)\<close>: the set \<^verbatim>\<open>ids\<close> as the list of its elements in
  insertion order, so that \<^verbatim>\<open>[...ids]\<close> is that list and \<^verbatim>\<open>pop\<close> takes its last
  element first. The result is \<^verbatim>\<open>ret\<close>, or the error that was thrown.
\<close>

definition propagation ::
  "string list \<Rightarrow> ScryptedRuntime \<Rightarrow> (string \<times> PluginDeviceProxyHandler) list \<times> pass1" where
  "propagation ids s = propagate (devices s) ([], rev ids, events s)"

definition invalidateMixins :: "string list \<Rightarrow> ScryptedRuntime \<Rightarrow> (js_error + string list) \<times> ScryptedRuntime" where
  "invalidateMixins ids s =
     (let (ds, ret, remaining, evs) = propagation ids s;
          (failed, s') = rebuildMixinTables ret (s\<lparr>devices := ds, events := evs\<rparr>)
      in (case failed of None \<Rightarrow> Inr ret | Some e \<Rightarrow> Inl e, s'))"

section \<open>Reading mixin tables\<close>

text \<open>
  The chain of a proxy (empty when there is none), the provider ids its entries name,
  and those of the entries before the last one, which is the device itself.
\<close>

definition chain :: "PluginDeviceProxyHandler \<Rightarrow> MixinTableEntry list" where
  "chain h = (case mixinTable h of None \<Rightarrow> [] | Some table \<Rightarrow> table)"

definition providerIds :: "PluginDeviceProxyHandler \<Rightarrow> string list" where
  "providerIds h = (case mixinTable h of None \<Rightarrow> [] | Some table \<Rightarrow> List.map_filter mixinProviderId table)"

definition innerIds :: "PluginDeviceProxyHandler \<Rightarrow> string list" where
  "innerIds h = List.map_filter mixinProviderId (butlast (chain h))"

text \<open>
  A set \<open>R\<close> of device ids is closed for the ids \<open>S\<close> when it holds the id of every
  proxy whose chain has an entry of a provider in \<open>S\<close> or in \<open>R\<close>.
\<close>

definition closedUnder :: "string set \<Rightarrow> (string \<times> PluginDeviceProxyHandler) list \<Rightarrow> string set \<Rightarrow> bool" where
  "closedUnder S ds R = (\<forall>(k, h) \<in> set ds. \<forall>i \<in> set (providerIds h). i \<in> S \<or> i \<in> R \<longrightarrow> handler_id h \<in> R)"

text \<open>What the first pass emits when it releases entries of the device \<open>d\<close>.\<close>

definition releases :: "string \<Rightarrow> MixinTableEntry list \<Rightarrow> event list" where
  "releases d entries =
     concat (map (\<lambda>e. [Console (ConsoleLog ''invalidating mixin''), InvalidateEntry d e]) entries)"

text \<open>
  The entries a list of events releases, each with the device it was released from;
  the entries a handler lost between two moments; and the events that the first pass
  can produce for the devices in \<open>R\<close>: console lines and releases, never a rebuild.
\<close>

definition released :: "event list \<Rightarrow> (string \<times> MixinTableEntry) set" where
  "released evs = {(d, e). InvalidateEntry d e \<in> set evs}"

definition removed :: "PluginDeviceProxyHandler \<Rightarrow> PluginDeviceProxyHandler \<Rightarrow> MixinTableEntry list" where
  "removed h h' = take (length (chain h) - length (chain h')) (chain h)"

fun pass1Event :: "string set \<Rightarrow> event \<Rightarrow> bool" where
  "pass1Event R (Console l) = True"
| "pass1Event R (InvalidateEntry d e) = (d \<in> R)"
| "pass1Event R ev = False"

text \<open>
  Three proxies: device 3 is wrapped by the mixins of 1 (outermost) and 2, device 4 by
  that of 5, and device 6 by the mixin of 3. Then what the first pass of
  \<^verbatim>\<open>invalidateMixins\<close> for the id 2 leaves and emits.
\<close>

definition entryOf :: "string option \<Rightarrow> nat \<Rightarrow> MixinTableEntry" where
  "entryOf p n = \<lparr>mixinProviderId = p, entry = n\<rparr>"

definition proxyOf :: "string \<Rightarrow> MixinTableEntry list \<Rightarrow> string \<times> PluginDeviceProxyHandler" where
  "proxyOf i table = (i, \<lparr>handler_id = i, mixinTable = Some table\<rparr>)"

definition chainRuntime :: ScryptedRuntime where
  "chainRuntime = emptyRuntime\<lparr>devices :=
     [proxyOf ''3'' [entryOf (Some ''1'') 10, entryOf (Some ''2'') 11, entryOf None 12],
      proxyOf ''4'' [entryOf (Some ''5'') 13, entryOf None 14],
      proxyOf ''6'' [entryOf (Some ''3'') 15, entryOf None 16]]\<rparr>"

definition chainAfter :: "(string \<times> PluginDeviceProxyHandler) list" where
  "chainAfter =
     [proxyOf ''3'' [entryOf None 12],
      proxyOf ''4'' [entryOf (Some ''5'') 13, entryOf None 14],
      proxyOf ''6'' [entryOf None 16]]"

definition chainEvents :: "event list" where
  "chainEvents =
     [Console (ConsoleLog ''invalidating mixin''), InvalidateEntry ''3'' (entryOf (Some ''1'') 10),
      Console (ConsoleLog ''invalidating mixin''), InvalidateEntry ''3'' (entryOf (Some ''2'') 11),
      Console (ConsoleLog ''invalidating mixin''), InvalidateEntry ''6'' (entryOf (Some ''3'') 15)]"

section \<open>Plugin processes\<close>

text \<open>
  Modelled from the spec: \<^verbatim>\<open>PluginHost.kill\<close>, not among the sources, marks the handle
  dead and terminates the worker, and is idempotent.
\<close>

definition killHost :: "nat \<Rightarrow> ScryptedRuntime \<Rightarrow> ScryptedRuntime" where
  "killHost r s =
     (if r < length (hosts s)
      then s\<lparr>hosts := (hosts s)[r := (hosts s ! r)\<lparr>killed := True\<rparr>],
             events := events s @ [WorkerKill r]\<rparr>
      else s)"

text \<open>\<^verbatim>\<open>killPlugin\<close>: the handle leaves the table, then it is killed.\<close>

definition killPlugin :: "string \<Rightarrow> ScryptedRuntime \<Rightarrow> ScryptedRuntime" where
  "killPlugin pid s =
     (case map_of (plugins s) pid of
        None \<Rightarrow> s
      | Some existing \<Rightarrow> killHost existing (s\<lparr>plugins := AList.delete pid (plugins s)\<rparr>))"

definition findPluginDevices :: "ScryptedRuntime \<Rightarrow> string \<Rightarrow> PluginDevice list" where
  "findPluginDevices s pid = filter (\<lambda>e. state e \<noteq> None \<and> pluginId e = pid) (map snd (pluginDevices s))"

text \<open>\<^verbatim>\<open>this.getDevice(pluginDevice._id)?.probe().catch(() => {})\<close>.\<close>

definition probeDevice :: "string \<Rightarrow> ScryptedRuntime \<Rightarrow> ScryptedRuntime" where
  "probeDevice i s =
     (let (found, s') = getDevice i s
      in if found then s'\<lparr>events := events s' @ [Probe i]\<rparr> else s')"

text \<open>
  \<^verbatim>\<open>runPlugin\<close>: any process of the plugin is killed, the proxies of its devices are
  invalidated, a fresh host (the next position of the store) becomes the live handle,
  and the devices are probed. Modelled from the spec: the constructor of PluginHost, not
  among the sources, constructs a fresh isolated worker. The exit listener that
  \<^verbatim>\<open>setupPluginHostAutoRestart\<close> puts on the worker is \<open>workerExit\<close> below.
\<close>

definition runPlugin :: "Plugin \<Rightarrow> ScryptedRuntime \<Rightarrow> nat \<times> ScryptedRuntime" where
  "runPlugin plugin s =
     (let pid = plugin_id plugin;
          s1 = killPlugin pid s;
          pluginDevices = findPluginDevices s1 pid;
          s2 = fold (\<lambda>pluginDevice. invalidatePluginDevice (pd_id pluginDevice)) pluginDevices s1;
          pluginHost = length (hosts s2);
          s3 = s2\<lparr>hosts := hosts s2 @ [\<lparr>host_pluginId = pid, killed = False\<rparr>]\<rparr>;
          s4 = s3\<lparr>plugins := setProperty pid pluginHost (plugins s3)\<rparr>
      in (pluginHost, fold (\<lambda>pluginDevice. probeDevice (pd_id pluginDevice)) pluginDevices s4))"

text \<open>
  \<^verbatim>\<open>setupPluginHostAutoRestart\<close>, the listener of the worker's exit: nothing after an
  explicit kill; otherwise the host is marked dead and the restart is scheduled, 60000
  milliseconds from now.
\<close>

definition workerExit :: "nat \<Rightarrow> ScryptedRuntime \<Rightarrow> ScryptedRuntime" where
  "workerExit pluginHost s =
     (if pluginHost < length (hosts s) \<and> \<not> killed (hosts s ! pluginHost)
      then let s1 = killHost pluginHost s;
               timeout = 60000
           in s1\<lparr>events := events s1 @ [Console (ConsoleError ''plugin unexpectedly exited, restarting'')],
                 timers := timers s1 @ [(now s1 + timeout, pluginHost)]\<rparr>
      else s)"

text \<open>
  The callback of the timer. The read of the store is taken as immediate; the
  \<^verbatim>\<open>try\<close> around \<^verbatim>\<open>runPlugin\<close> has nothing to catch here.
\<close>

definition restartCallback :: "nat \<Rightarrow> ScryptedRuntime \<Rightarrow> ScryptedRuntime" where
  "restartCallback pluginHost s =
     (let pid = host_pluginId (hosts s ! pluginHost)
      in if map_of (plugins s) pid \<noteq> Some pluginHost
         then s\<lparr>events := events s @
                 [Console (ConsoleLog ''scheduled plugin restart cancelled, plugin was restarted by user'')]\<rparr>
         else (case map_of (pluginRecords (datastore s)) pid of
                 None \<Rightarrow> s\<lparr>events := events s @
                   [Console (ConsoleLog ''scheduled plugin restart cancelled, plugin no longer exists'')]\<rparr>
               | Some plugin \<Rightarrow> snd (runPlugin plugin s)))"

text \<open>
  What can happen to the supervisor, one thing at a time on the event loop: a worker
  exits, time passes, a pending timer that is due fires (and is gone), somebody runs or
  kills a plugin, or a plugin record is written or removed.
\<close>

datatype action =
  WorkerExit nat | Advance nat | Fire nat | RunPlugin Plugin | KillPlugin string
  | PutPlugin Plugin | RemovePlugin string

fun step :: "action \<Rightarrow> ScryptedRuntime \<Rightarrow> ScryptedRuntime" where
  "step (WorkerExit r) s = workerExit r s"
| "step (Advance ms) s = s\<lparr>now := now s + ms\<rparr>"
| "step (Fire k) s =
     (if k < length (timers s) \<and> fst (timers s ! k) \<le> now s
      then restartCallback (snd (timers s ! k)) (s\<lparr>timers := take k (timers s) @ drop (Suc k) (timers s)\<rparr>)
      else s)"
| "step (RunPlugin plugin) s = snd (runPlugin plugin s)"
| "step (KillPlugin pid) s = killPlugin pid s"
| "step (PutPlugin plugin) s =
     s\<lparr>datastore := (datastore s)\<lparr>pluginRecords :=
          AList.update (plugin_id plugin) plugin (pluginRecords (datastore s))\<rparr>\<rparr>"
| "step (RemovePlugin pid) s =
     s\<lparr>datastore := (datastore s)\<lparr>pluginRecords := AList.delete pid (pluginRecords (datastore s))\<rparr>\<rparr>"

fun run :: "action list \<Rightarrow> ScryptedRuntime \<Rightarrow> ScryptedRuntime" where
  "run [] s = s"
| "run (a # as) s = run as (step a s)"

text \<open>The camera's plugin, and a runtime in which it runs as host 0 at time 1000.\<close>

definition cameraPlugin :: Plugin where
  "cameraPlugin = \<lparr>plugin_id = ''p'', packageName = ''camera'', packageVersion = ''1.0''\<rparr>"

definition runningRuntime :: ScryptedRuntime where
  "runningRuntime = cameraRuntime\<lparr>
     datastore := (datastore cameraRuntime)\<lparr>pluginRecords := [(''p'', cameraPlugin)]\<rparr>,
     plugins := [(''p'', 0)], hosts := [\<lparr>host_pluginId = ''p'', killed = False\<rparr>], now := 1000\<rparr>"

section \<open>Removing a device\<close>

text \<open>
  The last steps of \<^verbatim>\<open>removeDevice\<close> for a plugin-root device: the process is killed,
  the Plugin record is removed from the store and the plugin volume from the disk.
\<close>

definition removePluginOf :: "PluginDevice \<Rightarrow> ScryptedRuntime \<Rightarrow> ScryptedRuntime" where
  "removePluginOf device s =
     (let s1 = killPlugin (pluginId device) s
      in s1\<lparr>datastore := (datastore s1)\<lparr>pluginRecords :=
                AList.delete (pluginId device) (pluginRecords (datastore s1))\<rparr>,
            volumes := removeAll (pluginId device) (volumes s1)\<rparr>)"

text \<open>
  For any other device the owning plugin is told, inside \<^verbatim>\<open>try\<close>: the call fails when
  the plugin has no host (reading \<^verbatim>\<open>remote\<close> of \<^verbatim>\<open>undefined\<close>) or when the remote call is
  rejected, and then a warning is all that happens. Whether the remote call of a plugin
  succeeds is a parameter.
\<close>

definition notifyRemoved :: "(string \<Rightarrow> bool) \<Rightarrow> PluginDevice \<Rightarrow> string \<Rightarrow> ScryptedRuntime \<Rightarrow> ScryptedRuntime" where
  "notifyRemoved reachable device nid s =
     (if map_of (plugins s) (pluginId device) \<noteq> None \<and> reachable (pluginId device)
      then s\<lparr>events := events s @ [SetNativeIdRemoved (pluginId device) nid]\<rparr>
      else s\<lparr>events := events s @
             [Console (ConsoleWarn ''error while reporting device removal to plugin remote'')]\<rparr>)"

text \<open>
  \<^verbatim>\<open>removeDevice\<close> after its loop: the device's proxy is invalidated, the device leaves
  the table and the store, the State Manager forgets it, the mixins it provides are
  invalidated, and then the plugin goes with it (\<^verbatim>\<open>!device.nativeId\<close>) or is told. An
  error thrown by \<^verbatim>\<open>invalidateMixins\<close> ends the call there. (\<^verbatim>\<open>device.state = undefined\<close>
  changes an object that is in no table afterwards.)
\<close>

definition removeSelf ::
  "(string \<Rightarrow> bool) \<Rightarrow> PluginDevice \<Rightarrow> ScryptedRuntime \<Rightarrow> js_error option \<times> ScryptedRuntime" where
  "removeSelf reachable device s =
     (let i = pd_id device;
          s1 = invalidatePluginDevice i s;
          s2 = s1\<lparr>pluginDevices := AList.delete i (pluginDevices s1)\<rparr>;
          s3 = s2\<lparr>datastore := (datastore s2)\<lparr>deviceRecords :=
                  AList.delete i (deviceRecords (datastore s2))\<rparr>\<rparr>;
          s4 = s3\<lparr>events := events s3 @ [StateManagerRemoveDevice i]\<rparr>;
          (r, s5) = invalidateMixins [i] s4
      in case r of
           Inl e \<Rightarrow> (Some e, s5)
         | Inr ret \<Rightarrow>
             (None, case nativeId device of
                      None \<Rightarrow> removePluginOf device s5
                    | Some nid \<Rightarrow> if nid = [] then removePluginOf device s5
                                  else notifyRemoved reachable device nid s5))"

text \<open>
  \<^verbatim>\<open>removeDevice\<close>. The recursion of the source has no bound of its own, so the model
  counts it down: \<open>None\<close> is a call that did not return within the bound. The devices
  provided by the device are read from the table once, before the loop; the loop skips
  the device itself (\<^verbatim>\<open>provided === device\<close>: the table holds one object per id) and stops
  at the first error.
\<close>

fun removeDevice ::
  "(string \<Rightarrow> bool) \<Rightarrow> nat \<Rightarrow> PluginDevice \<Rightarrow> ScryptedRuntime
     \<Rightarrow> (js_error option \<times> ScryptedRuntime) option" where
  "removeDevice reachable 0 device s = None"
| "removeDevice reachable (Suc fuel) device s =
     (let providedDevices =
            filter (\<lambda>pluginDevice. getState pluginDevice P_providerId = VStr (pd_id device))
              (map snd (pluginDevices s))
      in case fold (\<lambda>provided acc.
                 case acc of
                   Some (None, s') \<Rightarrow>
                     if pd_id provided = pd_id device then Some (None, s')
                     else removeDevice reachable fuel provided s'
                 | other \<Rightarrow> other)
               providedDevices (Some (None, s)) of
           Some (None, s1) \<Rightarrow> Some (removeSelf reachable device s1)
         | other \<Rightarrow> other)"

text \<open>
  The provider relation of the table: an edge from the id of a device to the id of its
  provider, self-loops left out.
\<close>

definition providerEdges :: "ScryptedRuntime \<Rightarrow> (string \<times> string) list" where
  "providerEdges s =
     concat (map (\<lambda>(k, c). case getState c P_providerId of
                              VStr p \<Rightarrow> if pd_id c = p then [] else [(pd_id c, p)]
                            | _ \<Rightarrow> [])
              (pluginDevices s))"

section \<open>Reading a removal\<close>

text \<open>
  The devices below a device in the provider relation, and the cascade of a device: the
  device and all below it.
\<close>

definition descendants :: "ScryptedRuntime \<Rightarrow> string \<Rightarrow> string set" where
  "descendants s i = fst ` Set.filter (\<lambda>e. snd e = i) ((set (providerEdges s))\<^sup>+)"






text \<open>
  A plugin with three devices: its root device, which \<^verbatim>\<open>upsertDevice\<close> makes its own
  provider, a hub provided by the root and a sensor provided by the hub; and the root
  device of another plugin, which has the sensor as a mixin. Plugin p runs as host 0.
\<close>

definition providedDevice :: "string \<Rightarrow> string \<Rightarrow> string option \<Rightarrow> string \<Rightarrow> PluginDevice" where
  "providedDevice i pid nid provider = \<lparr>pd_id = i, pluginId = pid, nativeId = nid, stateVersion = Some 2,
     state = Some ((\<lambda>_. VUndefined)(P_providerId := VStr provider, P_pluginId := VStr pid,
                     P_nativeId := optStr nid))\<rparr>"

definition rootDevice :: PluginDevice where
  "rootDevice = providedDevice ''1'' ''p'' None ''1''"

definition homeRuntime :: ScryptedRuntime where
  "homeRuntime = emptyRuntime\<lparr>
     pluginDevices := [(''1'', rootDevice), (''2'', providedDevice ''2'' ''p'' (Some ''hub'') ''1''),
                       (''3'', providedDevice ''3'' ''p'' (Some ''sensor'') ''2''),
                       (''4'', providedDevice ''4'' ''q'' None ''4'')],
     datastore := \<lparr>deviceRecords = [(''1'', rootDevice), (''2'', providedDevice ''2'' ''p'' (Some ''hub'') ''1''),
                       (''3'', providedDevice ''3'' ''p'' (Some ''sensor'') ''2''),
                       (''4'', providedDevice ''4'' ''q'' None ''4'')],
                    pluginRecords = [(''p'', cameraPlugin), (''q'', \<lparr>plugin_id = ''q'', packageName = ''lights'', packageVersion = ''2.0''\<rparr>)],
                    idCounter = 4\<rparr>,
     plugins := [(''p'', 0)], hosts := [\<lparr>host_pluginId = ''p'', killed = False\<rparr>],
     volumes := [''p'', ''q''],
     devices := [proxyOf ''2'' [entryOf None 22],
                 proxyOf ''3'' [entryOf (Some ''4'') 23, entryOf None 24],
                 proxyOf ''4'' [entryOf (Some ''3'') 20, entryOf None 21]]\<rparr>"




text \<open>Two devices, each the provider of the other.\<close>

definition loopRuntime :: ScryptedRuntime where
  "loopRuntime = emptyRuntime\<lparr>pluginDevices :=
     [(''1'', providedDevice ''1'' ''p'' (Some ''a'') ''2''), (''2'', providedDevice ''2'' ''p'' (Some ''b'') ''1'')]\<rparr>"

section \<open>Startup\<close>

text \<open>
  Modelled from the spec: \<^verbatim>\<open>hasMixinCycle\<close> of the mixin-cycle module, not among the
  sources. The graph has an edge from a device to each of its mixin provider ids; a
  device has a mixin cycle when it takes part in a cycle of that graph, that is, when it
  reaches itself along at least one edge.
\<close>

definition mixinsOf :: "ScryptedRuntime \<Rightarrow> string \<Rightarrow> string list" where
  "mixinsOf s i =
     (case findPluginDeviceById s i of
        None \<Rightarrow> []
      | Some pluginDevice \<Rightarrow> List.map_filter (\<lambda>m. m) (getMixins pluginDevice))"

definition mixinEdges :: "ScryptedRuntime \<Rightarrow> (string \<times> string) list" where
  "mixinEdges s = concat (map (\<lambda>(k, pluginDevice). map (Pair k) (mixinsOf s k)) (pluginDevices s))"

definition hasMixinCycle :: "ScryptedRuntime \<Rightarrow> string \<Rightarrow> bool" where
  "hasMixinCycle s i = ((i, i) \<in> (set (mixinEdges s))\<^sup>+)"

text \<open>
  The first loop of \<^verbatim>\<open>start\<close>, for one persisted device: a record without state is
  removed from the store; any other enters the table and is repaired, and is persisted
  again if a repair was made. \<^verbatim>\<open>interfaces.includes\<close> throws when the provided
  interfaces are not a list; the source reaches it for a falsy native id only.
\<close>

definition loadDevice :: "PluginDevice \<Rightarrow> ScryptedRuntime \<Rightarrow> js_error + ScryptedRuntime" where
  "loadDevice pluginDevice s =
     (case state pluginDevice of
        None \<Rightarrow>
          Inr (s\<lparr>datastore := (datastore s)\<lparr>deviceRecords :=
                    AList.delete (pd_id pluginDevice) (deviceRecords (datastore s))\<rparr>\<rparr>)
      | Some st \<Rightarrow>
          let mixins = getMixins pluginDevice;
              dirty1 = (None \<in> set mixins);
              pd1 = (if dirty1
                     then snd (setState pluginDevice P_mixins
                                 (VMixins (filter (\<lambda>e. \<not> falsy e) mixins)))
                     else pluginDevice);
              interfaces = getState pd1 P_providedInterfaces
          in if falsy (nativeId pd1) \<and> (case interfaces of VStrings xs \<Rightarrow> False | _ \<Rightarrow> True)
             then Inl (TypeError ''interfaces.includes is not a function'')
             else
               let dirty2 = (falsy (nativeId pd1) \<and> ScryptedPlugin \<notin> set (getProvidedInterfaces pd1));
                   pd2 = (if dirty2
                          then snd (setState pd1 P_providedInterfaces
                                      (VStrings (sortInterfaces (getProvidedInterfaces pd1 @ [ScryptedPlugin]))))
                          else pd1);
                   dirty3 = (getState pd2 P_pluginId = VUndefined \<or> getState pd2 P_pluginId = VStr []);
                   pd3 = (if dirty3 then snd (setState pd2 P_pluginId (VStr (pluginId pd2))) else pd2);
                   dirty4 = (getState pd3 P_nativeId \<noteq> optStr (nativeId pd3));
                   pd4 = (if dirty4 then snd (setState pd3 P_nativeId (optStr (nativeId pd3))) else pd3);
                   s1 = storeDevice pd4 s
               in Inr (if dirty1 \<or> dirty2 \<or> dirty3 \<or> dirty4
                       then s1\<lparr>datastore := (datastore s1)\<lparr>deviceRecords :=
                                 AList.update (pd_id pd4) pd4 (deviceRecords (datastore s1))\<rparr>\<rparr>
                       else s1))"

fun loadDevices :: "PluginDevice list \<Rightarrow> ScryptedRuntime \<Rightarrow> js_error + ScryptedRuntime" where
  "loadDevices [] s = Inr s"
| "loadDevices (pluginDevice # rest) s =
     (case loadDevice pluginDevice s of Inl e \<Rightarrow> Inl e | Inr s' \<Rightarrow> loadDevices rest s')"

text \<open>
  The second loop, over the ids of the system state (modelled from the spec:
  \<^verbatim>\<open>getSystemState\<close>, not among the sources, maps every device id to its state), which
  \<^verbatim>\<open>Object.keys\<close> yields in the order of the table's keys: a device that has a mixin
  cycle when its turn comes gets its mixins cleared, in the table only.
\<close>

definition clearMixins :: "string \<Rightarrow> ScryptedRuntime \<Rightarrow> ScryptedRuntime" where
  "clearMixins i s =
     s\<lparr>pluginDevices :=
         AList.map_entry i (\<lambda>pluginDevice. snd (setState pluginDevice P_mixins (VMixins []))) (pluginDevices s),
       events := events s @ [Console (ConsoleWarn (''initialize: '' @ i @ '' has a mixin cycle. Clearing mixins.''))]\<rparr>"

fun clearMixinCycles :: "string list \<Rightarrow> ScryptedRuntime \<Rightarrow> ScryptedRuntime" where
  "clearMixinCycles [] s = s"
| "clearMixinCycles (i # ids) s = clearMixinCycles ids (if hasMixinCycle s i then clearMixins i s else s)"

text \<open>
  The third loop, over the persisted plugins, each inside \<^verbatim>\<open>try\<close>: the plugin's root
  device gets its info and the plugin is run. Without a root device \<^verbatim>\<open>setState\<close>
  throws, which is logged, and the plugin is not run.
\<close>

definition startPlugin :: "Plugin \<Rightarrow> ScryptedRuntime \<Rightarrow> ScryptedRuntime" where
  "startPlugin plugin s =
     (case findPluginDevice s (plugin_id plugin) None of
        None \<Rightarrow> s\<lparr>events := events s @ [Console (ConsoleError ''error starting plugin'')]\<rparr>
      | Some pluginDevice \<Rightarrow>
          snd (runPlugin plugin
                 (storeDevice (snd (setState pluginDevice P_info
                                      (VInfo (packageName plugin) (packageVersion plugin)))) s)))"

text \<open>\<^verbatim>\<open>start\<close>: the three loops, over what the store holds when it begins.\<close>

definition start :: "ScryptedRuntime \<Rightarrow> js_error + ScryptedRuntime" where
  "start s =
     (case loadDevices (map snd (deviceRecords (datastore s))) s of
        Inl e \<Rightarrow> Inl e
      | Inr s1 \<Rightarrow>
          let s2 = clearMixinCycles (map fst (pluginDevices s1)) s1
          in Inr (fold startPlugin (map snd (pluginRecords (datastore s2))) s2))"

text \<open>
  A store as a restart finds it: the root device of plugin p, persisted without its
  marker, and a camera of the plugin, each a mixin of the other.
\<close>

definition storedDevice :: "string \<Rightarrow> string option \<Rightarrow> string option list \<Rightarrow> string list \<Rightarrow> PluginDevice" where
  "storedDevice i nid mixins provided = \<lparr>pd_id = i, pluginId = ''p'', nativeId = nid, stateVersion = Some 2,
     state = Some ((\<lambda>_. VUndefined)(P_mixins := VMixins mixins, P_providedInterfaces := VStrings provided,
                     P_pluginId := VStr ''p'', P_nativeId := optStr nid))\<rparr>"


text \<open>
  A store that yields the record of device 10 before that of device 9; each of the two
  devices is the only mixin of the other.
\<close>

definition restartStore :: ScryptedRuntime where
  "restartStore = emptyRuntime\<lparr>datastore :=
     \<lparr>deviceRecords = [(''10'', storedDevice ''10'' (Some ''cam'') [Some ''9''] [''Camera'']),
                       (''9'', storedDevice ''9'' (Some ''hub'') [Some ''10''] [''OnOff''])],
      pluginRecords = [(''p'', cameraPlugin)], idCounter = 10\<rparr>\<rparr>"

section \<open>Tables: lemmas\<close>

lemma set_update_subset: "set (AList.update k v al) \<subseteq> insert (k, v) (set al)"
  by (induction al) auto

lemma find_update_same:
  "distinct (map fst al) \<Longrightarrow> \<forall>(k, x) \<in> set al. kf x = k \<Longrightarrow> find P (map snd al) = Some old \<Longrightarrow> P v
    \<Longrightarrow> find P (map snd (AList.update (kf old) v al)) = Some v"
proof (induction al)
  case Nil
  then show ?case by simp
next
  case (Cons a al)
  show ?case
  proof (cases "P (snd a)")
    case True
    with Cons.prems have "old = snd a" by simp
    with Cons.prems True show ?thesis by (cases a) auto
  next
    case False
    with Cons.prems have f: "find P (map snd al) = Some old" by simp
    then have "old \<in> set (map snd al)" by (metis find_Some_iff nth_mem length_map)
    then obtain k where "(k, old) \<in> set al" by auto
    with Cons.prems have "kf old = k" "k \<noteq> fst a" by (auto simp: rev_image_eqI)
    with Cons f False show ?thesis by (cases a) auto
  qed
qed

lemma find_update_other:
  "\<not> P v \<Longrightarrow> \<forall>old. (k, old) \<in> set al \<longrightarrow> \<not> P old
    \<Longrightarrow> find P (map snd (AList.update k v al)) = find P (map snd al)"
  by (induction al) auto

lemma find_update_new:
  "find P (map snd al) = None \<Longrightarrow> P v \<Longrightarrow> find P (map snd (AList.update k v al)) = Some v"
  by (induction al) (auto split: if_splits)

lemma insertProperty_set: "set (insertProperty k v al) = insert (k, v) (set al)"
  by (induction al) (auto split: if_splits)

lemma setProperty_existing: "k \<in> fst ` set al \<Longrightarrow> setProperty k v al = AList.update k v al"
  by (simp add: setProperty_def)

lemma setProperty_subset: "set (setProperty k v al) \<subseteq> insert (k, v) (set al)"
  using set_update_subset[of k v al] by (simp add: setProperty_def insertProperty_set)

lemma setProperty_dom: "fst ` set (setProperty k v al) = insert k (fst ` set al)"
proof (cases "k \<in> fst ` set al")
  case True
  then show ?thesis by (auto simp: setProperty_def dom_update)
next
  case False
  then show ?thesis by (simp add: setProperty_def insertProperty_set)
qed

lemma setProperty_keys:
  "map fst (setProperty k v al)
     = (if k \<in> fst ` set al then map fst al else map fst (insertProperty k v al))"
  by (simp add: setProperty_def update_keys)

lemma insertProperty_distinct:
  "k \<notin> fst ` set al \<Longrightarrow> distinct (map fst al) \<Longrightarrow> distinct (map fst (insertProperty k v al))"
  by (induction al) (auto simp: insertProperty_set)

lemma setProperty_distinct: "distinct (map fst al) \<Longrightarrow> distinct (map fst (setProperty k v al))"
  by (simp add: setProperty_def distinct_update insertProperty_distinct)

lemma insertProperty_map_of:
  "k \<notin> fst ` set al \<Longrightarrow> map_of (insertProperty k v al) = (map_of al)(k \<mapsto> v)"
  by (induction al) (auto simp: fun_upd_twist)

lemma setProperty_map_of: "map_of (setProperty k v al) = (map_of al)(k \<mapsto> v)"
  by (simp add: setProperty_def update_conv' insertProperty_map_of)

lemma find_insertProperty_other:
  "\<not> P v \<Longrightarrow> find P (map snd (insertProperty k v al)) = find P (map snd al)"
  by (induction al) auto

lemma find_insertProperty_new:
  "P v \<Longrightarrow> find P (map snd al) = None \<Longrightarrow> find P (map snd (insertProperty k v al)) = Some v"
  by (induction al) (auto split: if_splits)

lemma find_setProperty_same:
  assumes "distinct (map fst al)" "\<forall>(k, x) \<in> set al. kf x = k" "find P (map snd al) = Some old" "P v"
  shows "find P (map snd (setProperty (kf old) v al)) = Some v"
proof -
  from assms(3) have "old \<in> set (map snd al)" by (metis find_Some_iff nth_mem length_map)
  then obtain k where "(k, old) \<in> set al" by auto
  with assms(2) have "kf old \<in> fst ` set al" by force
  then show ?thesis using find_update_same[OF assms] by (simp add: setProperty_existing)
qed

lemma find_setProperty_other:
  assumes "\<not> P v" "\<forall>old. (k, old) \<in> set al \<longrightarrow> \<not> P old"
  shows "find P (map snd (setProperty k v al)) = find P (map snd al)"
proof (cases "k \<in> fst ` set al")
  case True
  then show ?thesis using find_update_other[OF assms] by (simp add: setProperty_existing)
next
  case False
  then show ?thesis using assms(1) by (simp add: setProperty_def find_insertProperty_other)
qed

lemma find_setProperty_new:
  assumes "find P (map snd al) = None" "P v"
  shows "find P (map snd (setProperty k v al)) = Some v"
proof (cases "k \<in> fst ` set al")
  case True
  then show ?thesis using find_update_new[OF assms] by (simp add: setProperty_existing)
next
  case False
  then show ?thesis using assms by (simp add: setProperty_def find_insertProperty_new)
qed

text \<open>Setting a property keeps the keys in the order of an object's own properties.\<close>

lemma indexLess_trans: "indexLess a b \<Longrightarrow> indexLess b c \<Longrightarrow> indexLess a c"
  unfolding indexLess_def by (metis less_trans order_less_trans)

lemma indexLess_asym: "indexLess a b \<Longrightarrow> \<not> indexLess b a"
  unfolding indexLess_def by (metis less_asym order_less_asym)

lemma precedes_asym: "precedes a b \<Longrightarrow> \<not> precedes b a"
  unfolding precedes_def using indexLess_asym by blast

lemma precedes_before: "precedes k a \<Longrightarrow> \<not> precedes b a \<Longrightarrow> \<not> precedes b k"
  unfolding precedes_def using indexLess_trans by blast

lemma insertProperty_ordered:
  "ownPropertyOrder (map fst al) \<Longrightarrow> ownPropertyOrder (map fst (insertProperty k v al))"
proof (induction al)
  case Nil
  then show ?case by (simp add: ownPropertyOrder_def)
next
  case (Cons a al)
  obtain k' v' where a: "a = (k', v')" by (cases a)
  from Cons.prems have tl: "ownPropertyOrder (map fst al)"
    and hd: "\<And>b. b \<in> fst ` set al \<Longrightarrow> \<not> precedes b k'"
    unfolding a ownPropertyOrder_def by auto
  show ?case
  proof (cases "precedes k k'")
    case True
    have "\<not> precedes b k" if "b \<in> fst ` set al" for b
      using precedes_before[OF True hd[OF that]] .
    moreover have "\<not> precedes k' k" using True by (rule precedes_asym)
    ultimately have "\<forall>b \<in> set (k' # map fst al). \<not> precedes b k" by auto
    with Cons.prems show ?thesis
      unfolding a ownPropertyOrder_def insertProperty.simps if_P[OF True] list.map fst_conv sorted_wrt.simps
      by blast
  next
    case False
    from Cons.IH[OF tl] have ih: "ownPropertyOrder (map fst (insertProperty k v al))" .
    have "\<forall>b \<in> set (map fst (insertProperty k v al)). \<not> precedes b k'"
      using hd False by (auto simp: insertProperty_set)
    with ih show ?thesis
      unfolding a ownPropertyOrder_def insertProperty.simps if_not_P[OF False] list.map fst_conv sorted_wrt.simps
      by blast
  qed
qed

lemma setProperty_ordered:
  "ownPropertyOrder (map fst al) \<Longrightarrow> ownPropertyOrder (map fst (setProperty k v al))"
  by (simp add: setProperty_keys insertProperty_ordered)

section \<open>Device state: lemmas\<close>

lemma sortInterfaces_set: "set (sortInterfaces xs) = set xs"
  by (simp add: sortInterfaces_def)

lemma sortInterfaces_sorted: "sorted (sortInterfaces xs) \<and> distinct (sortInterfaces xs)"
  by (simp add: sortInterfaces_def)

lemma sortInterfaces_eq: "sortInterfaces xs = sorted_list_of_set (set xs)"
  by (simp add: sortInterfaces_def sorted_list_of_set_sort_remdups)

lemma sortInterfaces_cong: "set xs = set ys \<Longrightarrow> sortInterfaces xs = sortInterfaces ys"
  by (simp add: sortInterfaces_eq)

lemma getState_setState:
  "state pd \<noteq> None \<Longrightarrow> getState (snd (setState pd p v)) q = (if q = p then v else getState pd q)"
  by (auto simp: getState_def setState_def split: option.splits)

lemma setState_fields:
  "pd_id (snd (setState pd p v)) = pd_id pd" "pluginId (snd (setState pd p v)) = pluginId pd"
  "nativeId (snd (setState pd p v)) = nativeId pd" "(state (snd (setState pd p v)) = None) = (state pd = None)"
  by (auto simp: setState_def split: option.splits)

lemma setState_changed: "state pd \<noteq> None \<Longrightarrow> fst (setState pd p v) = (getState pd p \<noteq> v)"
  by (auto simp: setState_def getState_def split: option.splits)

lemma sps_fst: "state (fst x) \<noteq> None \<Longrightarrow> fst (setPluginDeviceState p v x) = (getState (fst x) p \<noteq> v)"
  by (cases x) (simp add: setPluginDeviceState_def split_def Let_def setState_changed)

lemma sps_dev: "fst (snd (setPluginDeviceState p v x)) = snd (setState (fst x) p v)"
  by (cases x) (simp add: setPluginDeviceState_def split_def Let_def)

lemma setIf_dev: "fst (setIf b p v x) = (if b then snd (setState (fst x) p v) else fst x)"
  by (simp add: setIf_def sps_dev)

lemma getState_setState':
  "getState (snd (setState pd p v)) q = (if q = p \<and> state pd \<noteq> None then v else getState pd q)"
  by (auto simp: getState_def setState_def split: option.splits)

lemma getState_pd1:
  "getState (found\<lparr>pluginId := a, nativeId := b,
       state := Some (case state found of None \<Rightarrow> (\<lambda>_. VUndefined) | Some st \<Rightarrow> st)\<rparr>) q = getState found q"
  by (simp add: getState_def split: option.splits)

lemma info_step:
  "fst (case i of None \<Rightarrow> x | Some (m, v) \<Rightarrow> snd (setPluginDeviceState P_info (VInfo m v) x))
    = fst (setIf (i \<noteq> None) P_info (VInfo (fst (the i)) (snd (the i))) x)"
  by (cases i) (auto simp: setIf_def)

lemmas upsert_simps = upsertFields_def Let_def split_def sps_dev sps_fst setIf_dev info_step
  setState_fields getState_setState' getState_pd1

lemma upsertFields_dev:
  fixes dflt pid device found s0
  defines "pdF \<equiv> fst (snd (upsertFields dflt pid device found s0))"
  shows "pd_id pdF = pd_id found" "pluginId pdF = pid" "nativeId pdF = d_nativeId device"
    "state pdF \<noteq> None"
    "getState pdF P_providedInterfaces = VStrings (providedInterfacesOf device)"
    "getState pdF P_mixins = getState found P_mixins"
    "getState pdF P_interfaces = VStrings (mixinInterfacesOf found (providedInterfacesOf device))"
  unfolding pdF_def
  by (simp_all add: upsert_simps mixinInterfacesOf_def getMixins_def getInterfaces_def del: not_None_eq)

lemma upsertFields_changed:
  "fst (upsertFields dflt pid device found s0) =
     (getState found P_interfaces \<noteq> VStrings (mixinInterfacesOf found (providedInterfacesOf device))
          \<or> getState found P_providedInterfaces \<noteq> VStrings (providedInterfacesOf device))"
  by (simp add: upsert_simps mixinInterfacesOf_def getMixins_def getInterfaces_def del: not_None_eq)

section \<open>Ids are decimal numerals\<close>

definition undecimal :: "string \<Rightarrow> nat" where
  "undecimal cs = foldl (\<lambda>a c. 10 * a + (of_char c - 48)) 0 cs"

lemma undecimal_decimal: "undecimal (decimal n) = n"
proof (induction n rule: decimal.induct)
  case (1 n)
  show ?case
  proof (cases "n < 10")
    case True
    then show ?thesis by (subst decimal.simps) (simp add: undecimal_def)
  next
    case False
    have "undecimal (decimal n) = 10 * undecimal (decimal (n div 10)) + n mod 10"
      using False by (subst decimal.simps) (simp add: undecimal_def)
    with 1 False show ?thesis by simp
  qed
qed

lemma decimal_inj: "decimal a = decimal b \<Longrightarrow> a = b"
  by (metis undecimal_decimal)

section \<open>One call of upsertDevice\<close>

text \<open>The device a call leaves in the table.\<close>

definition upserted :: "InferDefaults \<Rightarrow> string \<Rightarrow> Device \<Rightarrow> ScryptedRuntime \<Rightarrow> PluginDevice" where
  "upserted dflt pid device s =
     fst (snd (upsertFields dflt pid device (fst (findOrCreate s pid device)) (snd (findOrCreate s pid device))))"

lemma findOrCreate_table: "pluginDevices (snd (findOrCreate s pid device)) = pluginDevices s"
  by (simp add: findOrCreate_def nextId_def split: option.splits)

lemma upsert_table:
  "pluginDevices (snd (upsertDevice dflt pid device s))
     = setProperty (pd_id (upserted dflt pid device s)) (upserted dflt pid device s) (pluginDevices s)"
  by (simp add: upsertDevice_def upserted_def split_def Let_def storeDevice_def
      notifyPluginDeviceDescriptorChanged_def findOrCreate_table)

lemma upsert_records:
  "deviceRecords (datastore (snd (upsertDevice dflt pid device s)))
     = AList.update (pd_id (upserted dflt pid device s)) (upserted dflt pid device s)
         (deviceRecords (datastore s))"
  by (simp add: upsertDevice_def upserted_def split_def Let_def storeDevice_def
      notifyPluginDeviceDescriptorChanged_def findOrCreate_def nextId_def split: option.splits)

lemma upsert_changed:
  "fst (upsertDevice dflt pid device s)
     = fst (upsertFields dflt pid device (fst (findOrCreate s pid device)) (snd (findOrCreate s pid device)))"
  by (simp add: upsertDevice_def split_def Let_def)

lemma upserted_pair:
  "pluginId (upserted dflt pid device s) = pid" "nativeId (upserted dflt pid device s) = d_nativeId device"
  by (simp_all add: upserted_def upsertFields_dev)

lemma find_in_table:
  assumes "findPluginDevice s pid nid = Some pd" "wfTable s"
  shows "(pd_id pd, pd) \<in> set (pluginDevices s)" "pluginId pd = pid" "nativeId pd = nid"
proof -
  from assms(1) have "pd \<in> set (map snd (pluginDevices s))" and p: "pluginId pd = pid \<and> nativeId pd = nid"
    unfolding findPluginDevice_def by (metis find_Some_iff nth_mem, metis (mono_tags, lifting) find_Some_iff)
  then obtain k where "(k, pd) \<in> set (pluginDevices s)" by auto
  with assms(2) show "(pd_id pd, pd) \<in> set (pluginDevices s)" by (auto simp: wfTable_def)
  from p show "pluginId pd = pid" "nativeId pd = nid" by simp_all
qed

lemma upsert_find_target:
  assumes "wfTable s"
  shows "findPluginDevice (snd (upsertDevice dflt pid device s)) pid (d_nativeId device)
           = Some (upserted dflt pid device s)"
proof (cases "findPluginDevice s pid (d_nativeId device)")
  case None
  then show ?thesis
    unfolding findPluginDevice_def upsert_table
    by (intro find_setProperty_new) (simp_all add: upserted_pair)
next
  case (Some found)
  have id: "pd_id (upserted dflt pid device s) = pd_id found"
    using Some by (simp add: upserted_def upsertFields_dev findOrCreate_def)
  show ?thesis
    unfolding findPluginDevice_def upsert_table id
    using assms Some
    by (intro find_setProperty_same) (auto simp: wfTable_def upserted_pair findPluginDevice_def)
qed

lemma freshIds_iff:
  "freshIds s = (\<forall>k \<in> fst ` set (pluginDevices s). \<exists>n \<le> idCounter (datastore s). k = decimal n)"
proof -
  have "set (map decimal [0..<Suc c]) = {k. \<exists>n \<le> c. k = decimal n}" for c
    by (auto simp del: upt_Suc simp: less_Suc_eq_le)
  then show ?thesis unfolding freshIds_def by (auto simp del: upt_Suc)
qed

lemma fresh_new_key:
  assumes "freshIds s" shows "decimal (Suc (idCounter (datastore s))) \<notin> fst ` set (pluginDevices s)"
proof
  assume "decimal (Suc (idCounter (datastore s))) \<in> fst ` set (pluginDevices s)"
  with assms obtain n where "n \<le> idCounter (datastore s)" "decimal (Suc (idCounter (datastore s))) = decimal n"
    unfolding freshIds_iff by blast
  then show False by (auto dest: decimal_inj)
qed

lemma upsert_find_other:
  assumes "wfTable s" "freshIds s" "(pid2, nid2) \<noteq> (pid, d_nativeId device)"
  shows "findPluginDevice (snd (upsertDevice dflt pid device s)) pid2 nid2 = findPluginDevice s pid2 nid2"
  unfolding findPluginDevice_def upsert_table
proof (intro find_setProperty_other allI impI)
  show "\<not> (pluginId (upserted dflt pid device s) = pid2 \<and> nativeId (upserted dflt pid device s) = nid2)"
    using assms(3) by (auto simp: upserted_pair)
next
  fix old assume in_t: "(pd_id (upserted dflt pid device s), old) \<in> set (pluginDevices s)"
  show "\<not> (pluginId old = pid2 \<and> nativeId old = nid2)"
  proof (cases "findPluginDevice s pid (d_nativeId device)")
    case None
    then have "pd_id (upserted dflt pid device s) = decimal (Suc (idCounter (datastore s)))"
      by (simp add: upserted_def upsertFields_dev findOrCreate_def nextId_def)
    with in_t fresh_new_key[OF assms(2)] show ?thesis by (metis fst_conv image_eqI)
  next
    case (Some found)
    then have id: "pd_id (upserted dflt pid device s) = pd_id found"
      by (simp add: upserted_def upsertFields_dev findOrCreate_def)
    from find_in_table[OF Some assms(1)] have f: "(pd_id found, found) \<in> set (pluginDevices s)"
      "pluginId found = pid" "nativeId found = d_nativeId device" by auto
    from assms(1) have "distinct (map fst (pluginDevices s))" by (simp add: wfTable_def)
    with in_t f(1) id have "old = found" by (metis eq_key_imp_eq_value)
    with f assms(3) show ?thesis by auto
  qed
qed

lemma upserted_id:
  "pd_id (upserted dflt pid device s) =
     (case findPluginDevice s pid (d_nativeId device) of
        Some found \<Rightarrow> pd_id found | None \<Rightarrow> decimal (Suc (idCounter (datastore s))))"
  by (simp add: upserted_def upsertFields_dev findOrCreate_def nextId_def split: option.splits)

lemma upsert_idCounter:
  "idCounter (datastore (snd (upsertDevice dflt pid device s))) =
     (case findPluginDevice s pid (d_nativeId device) of
        Some found \<Rightarrow> idCounter (datastore s) | None \<Rightarrow> Suc (idCounter (datastore s)))"
  by (simp add: upsertDevice_def split_def Let_def storeDevice_def
      notifyPluginDeviceDescriptorChanged_def findOrCreate_def nextId_def split: option.splits)

lemma upsert_wf:
  assumes "wfTable s" "freshIds s"
  shows "wfTable (snd (upsertDevice dflt pid device s))" "freshIds (snd (upsertDevice dflt pid device s))"
proof -
  let ?u = "upserted dflt pid device s"
  let ?s' = "snd (upsertDevice dflt pid device s)"
  have keys: "set (pluginDevices ?s') \<subseteq> insert (pd_id ?u, ?u) (set (pluginDevices s))"
    unfolding upsert_table by (rule setProperty_subset)
  show "wfTable ?s'"
    using assms(1) keys unfolding wfTable_def by (auto simp: upsert_table setProperty_distinct)
  show "freshIds ?s'"
    unfolding freshIds_iff
  proof
    fix k assume "k \<in> fst ` set (pluginDevices ?s')"
    with keys have "k = pd_id ?u \<or> k \<in> fst ` set (pluginDevices s)" by auto
    then show "\<exists>n \<le> idCounter (datastore ?s'). k = decimal n"
    proof
      assume k: "k = pd_id ?u"
      show ?thesis
      proof (cases "findPluginDevice s pid (d_nativeId device)")
        case None
        with k show ?thesis by (auto simp: upserted_id upsert_idCounter)
      next
        case (Some found)
        from find_in_table(1)[OF Some assms(1)] have "pd_id found \<in> fst ` set (pluginDevices s)"
          by (metis fst_conv image_eqI)
        with assms(2) obtain n where "n \<le> idCounter (datastore s)" "pd_id found = decimal n"
          unfolding freshIds_iff by blast
        with k Some show ?thesis by (auto simp: upserted_id upsert_idCounter)
      qed
    next
      assume "k \<in> fst ` set (pluginDevices s)"
      with assms(2) obtain n where "n \<le> idCounter (datastore s)" "k = decimal n"
        unfolding freshIds_iff by blast
      then show ?thesis by (auto simp: upsert_idCounter split: option.splits intro: le_SucI)
    qed
  qed
qed

section \<open>Sequences of calls\<close>

lemma upsertAll_append: "upsertAll dflt (xs @ ys) s = upsertAll dflt ys (upsertAll dflt xs s)"
  by (induction xs arbitrary: s) auto

lemma upsertAll_wf: "wfTable s \<Longrightarrow> freshIds s \<Longrightarrow> wfTable (upsertAll dflt calls s) \<and> freshIds (upsertAll dflt calls s)"
  by (induction calls arbitrary: s) (auto simp: upsert_wf)

lemma upsertAll_frame:
  "wfTable s \<Longrightarrow> freshIds s \<Longrightarrow> \<forall>c \<in> set calls. \<not> (fst c = pid \<and> d_nativeId (snd c) = nid)
    \<Longrightarrow> findPluginDevice (upsertAll dflt calls s) pid nid = findPluginDevice s pid nid"
proof (induction calls arbitrary: s)
  case Nil
  then show ?case by simp
next
  case (Cons c calls)
  obtain p d where c: "c = (p, d)" by (cases c)
  with Cons.prems have "(pid, nid) \<noteq> (p, d_nativeId d)" by auto
  with Cons c show ?case by (simp add: upsert_wf upsert_find_other)
qed

lemma upserted_interfaces:
  "getInterfaces (upserted dflt pid device s)
     = mixinInterfacesOf (fst (findOrCreate s pid device)) (providedInterfacesOf device)"
  "getMixins (upserted dflt pid device s) = getMixins (fst (findOrCreate s pid device))"
  "getState (upserted dflt pid device s) P_providedInterfaces = VStrings (providedInterfacesOf device)"
  by (simp_all add: upserted_def getInterfaces_def getMixins_def upsertFields_dev)

lemma mixinInterfacesOf_props:
  "sorted (mixinInterfacesOf f prov)" "distinct (mixinInterfacesOf f prov)"
  "set prov \<subseteq> set (mixinInterfacesOf f prov)"
  "getMixins f \<noteq> [] \<Longrightarrow> set (getInterfaces f) \<subseteq> set (mixinInterfacesOf f prov)"
  by (auto simp: mixinInterfacesOf_def sortInterfaces_set sortInterfaces_sorted)

lemma findOrCreate_fst:
  "getMixins (fst (findOrCreate s pid device)) \<noteq> [] \<Longrightarrow>
     findPluginDevice s pid (d_nativeId device) = Some (fst (findOrCreate s pid device))"
  by (auto simp: findOrCreate_def nextId_def getMixins_def getState_def split: option.splits)

lemma upsertAll_union:
  "wfTable s \<Longrightarrow> freshIds s \<Longrightarrow> findPluginDevice (upsertAll dflt calls s) pid nid = Some pd
    \<Longrightarrow> getMixins pd \<noteq> [] \<Longrightarrow> (pid, device) \<in> set calls \<Longrightarrow> d_nativeId device = nid
    \<Longrightarrow> set (providedInterfacesOf device) \<subseteq> set (getInterfaces pd)"
proof (induction calls arbitrary: pd rule: rev_induct)
  case Nil
  then show ?case by simp
next
  case (snoc c calls)
  obtain p d where c: "c = (p, d)" by (cases c)
  let ?sB = "upsertAll dflt calls s"
  have wf: "wfTable ?sB" "freshIds ?sB" using snoc.prems upsertAll_wf by auto
  have fin: "upsertAll dflt (calls @ [c]) s = snd (upsertDevice dflt p d ?sB)"
    by (simp add: upsertAll_append c)
  show ?case
  proof (cases "p = pid \<and> d_nativeId d = nid")
    case True
    with snoc.prems(3) have pd: "pd = upserted dflt pid d ?sB"
      using upsert_find_target[OF wf(1), of dflt pid d] by (simp add: fin)
    let ?f = "fst (findOrCreate ?sB pid d)"
    have mx: "getMixins ?f \<noteq> []" using snoc.prems(4) pd by (simp add: upserted_interfaces)
    then have fB: "findPluginDevice ?sB pid nid = Some ?f" using True findOrCreate_fst by blast
    have i: "getInterfaces pd = mixinInterfacesOf ?f (providedInterfacesOf d)"
      by (simp add: pd upserted_interfaces)
    show ?thesis
    proof (cases "(pid, device) = c")
      case True
      then show ?thesis using i c mixinInterfacesOf_props(3) by auto
    next
      case False
      with snoc.prems(5) have "(pid, device) \<in> set calls" by auto
      from snoc.IH[OF snoc.prems(1,2) fB mx this snoc.prems(6)]
      show ?thesis using i mixinInterfacesOf_props(4)[OF mx] by auto
    qed
  next
    case False
    then have "(pid, nid) \<noteq> (p, d_nativeId d)" by auto
    from upsert_find_other[OF wf this] snoc.prems(3)
    have fB: "findPluginDevice ?sB pid nid = Some pd" by (simp add: fin)
    from False snoc.prems(5,6) c have "(pid, device) \<in> set calls" by auto
    from snoc.IH[OF snoc.prems(1,2) fB snoc.prems(4) this snoc.prems(6)] show ?thesis .
  qed
qed

lemma upsertAll_last:
  assumes "wfTable s" "freshIds s" "d_nativeId device = nid"
    "\<forall>c \<in> set cs2. \<not> (fst c = pid \<and> d_nativeId (snd c) = nid)"
  shows "findPluginDevice (upsertAll dflt (cs1 @ (pid, device) # cs2) s) pid nid
           = Some (upserted dflt pid device (upsertAll dflt cs1 s))"
proof -
  let ?sA = "upsertAll dflt cs1 s"
  have wfA: "wfTable ?sA" "freshIds ?sA" using assms upsertAll_wf by auto
  let ?s1 = "snd (upsertDevice dflt pid device ?sA)"
  have wf1: "wfTable ?s1" "freshIds ?s1" using wfA upsert_wf by auto
  have "upsertAll dflt (cs1 @ (pid, device) # cs2) s = upsertAll dflt cs2 ?s1"
    by (simp add: upsertAll_append)
  then show ?thesis
    using upsertAll_frame[OF wf1 assms(4), of dflt] upsert_find_target[OF wfA(1), of dflt pid device] assms(3)
    by simp
qed

lemma providedInterfacesOf_sorted: "sortInterfaces (providedInterfacesOf device) = providedInterfacesOf device"
  unfolding providedInterfacesOf_def by (rule sortInterfaces_cong) (rule sortInterfaces_set)

lemma mixinInterfacesOf_exact:
  "getMixins f = [] \<Longrightarrow> mixinInterfacesOf f (providedInterfacesOf device) = providedInterfacesOf device"
  by (simp add: mixinInterfacesOf_def providedInterfacesOf_sorted)

text \<open>
  C2, as the code has it. Let a sequence of calls of upsertDevice contain a call for
  the device of plugin \<open>pid\<close> with native id \<open>nid\<close>. Then that device exists
  afterwards, its resolved interfaces are sorted and hold no name twice, and they
  include the provided interfaces of the latest call for it. If its mixins list is
  empty, they are exactly the provided interfaces of the latest call for it. If its
  mixins list is not empty, they include the provided interfaces of every call for it
  in the sequence.
\<close>

theorem upsertAll_interfaces_union:
  assumes "wfTable s" "freshIds s"
    and "(pid, device0) \<in> set calls" "d_nativeId device0 = nid"
  shows "\<exists>pd. findPluginDevice (upsertAll dflt calls s) pid nid = Some pd
     \<and> sorted (getInterfaces pd) \<and> distinct (getInterfaces pd)
     \<and> (\<forall>cs1 device cs2. calls = cs1 @ (pid, device) # cs2 \<and> d_nativeId device = nid
            \<and> (\<forall>c \<in> set cs2. \<not> (fst c = pid \<and> d_nativeId (snd c) = nid))
          \<longrightarrow> set (providedInterfacesOf device) \<subseteq> set (getInterfaces pd)
              \<and> (getMixins pd = [] \<longrightarrow> getInterfaces pd = providedInterfacesOf device))
     \<and> (getMixins pd \<noteq> [] \<longrightarrow>
          (\<forall>device. (pid, device) \<in> set calls \<and> d_nativeId device = nid
             \<longrightarrow> set (providedInterfacesOf device) \<subseteq> set (getInterfaces pd)))"
proof -
  let ?P = "\<lambda>c. fst c = pid \<and> d_nativeId (snd c) = nid"
  from assms(3,4) have "?P (pid, device0)" by simp
  with assms(3) have "\<exists>c \<in> set calls. ?P c" by (rule rev_bexI)
  from split_list_last_prop[OF this]
  obtain ys c zs where sp: "calls = ys @ c # zs" "?P c" "\<forall>z \<in> set zs. \<not> ?P z"
    by blast
  obtain d where c: "c = (pid, d)" "d_nativeId d = nid" using sp(2) by (cases c) auto
  let ?u = "upserted dflt pid d (upsertAll dflt ys s)"
  have f: "findPluginDevice (upsertAll dflt calls s) pid nid = Some ?u"
    unfolding sp(1) c(1) by (rule upsertAll_last[OF assms(1,2) c(2) sp(3)])
  have i: "getInterfaces ?u = mixinInterfacesOf (fst (findOrCreate (upsertAll dflt ys s) pid d)) (providedInterfacesOf d)"
    by (simp add: upserted_interfaces)
  have last: "set (providedInterfacesOf device) \<subseteq> set (getInterfaces ?u)
              \<and> (getMixins ?u = [] \<longrightarrow> getInterfaces ?u = providedInterfacesOf device)"
    if "calls = cs1 @ (pid, device) # cs2" "d_nativeId device = nid"
       "\<forall>c \<in> set cs2. \<not> (fst c = pid \<and> d_nativeId (snd c) = nid)" for cs1 device cs2
  proof -
    let ?v = "upserted dflt pid device (upsertAll dflt cs1 s)"
    have "findPluginDevice (upsertAll dflt calls s) pid nid = Some ?v"
      unfolding that(1) by (rule upsertAll_last[OF assms(1,2) that(2,3)])
    with f have u: "?u = ?v" by (metis option.inject)
    have "set (providedInterfacesOf device) \<subseteq> set (getInterfaces ?v)"
      unfolding upserted_interfaces by (rule mixinInterfacesOf_props(3))
    moreover have "getInterfaces ?v = providedInterfacesOf device" if "getMixins ?v = []"
      using that unfolding upserted_interfaces by (rule mixinInterfacesOf_exact)
    ultimately show ?thesis unfolding u by blast
  qed
  have srt: "sorted (getInterfaces ?u)" "distinct (getInterfaces ?u)"
    unfolding i by (rule mixinInterfacesOf_props)+
  have all: "set (providedInterfacesOf device) \<subseteq> set (getInterfaces ?u)"
    if "getMixins ?u \<noteq> []" "(pid, device) \<in> set calls" "d_nativeId device = nid" for device
    using upsertAll_union[OF assms(1,2) f that] .
  have c3: "\<forall>cs1 device cs2. calls = cs1 @ (pid, device) # cs2 \<and> d_nativeId device = nid
            \<and> (\<forall>c \<in> set cs2. \<not> (fst c = pid \<and> d_nativeId (snd c) = nid))
          \<longrightarrow> set (providedInterfacesOf device) \<subseteq> set (getInterfaces ?u)
              \<and> (getMixins ?u = [] \<longrightarrow> getInterfaces ?u = providedInterfacesOf device)"
    using last by blast
  have c4: "getMixins ?u \<noteq> [] \<longrightarrow>
          (\<forall>device. (pid, device) \<in> set calls \<and> d_nativeId device = nid
             \<longrightarrow> set (providedInterfacesOf device) \<subseteq> set (getInterfaces ?u))"
    using all by blast
  show ?thesis by (rule exI[of _ ?u]) (intro conjI f srt c3 c4)
qed

theorem upsertAll_interfaces_union_witness:
  "wfTable cameraRuntime \<and> freshIds cameraRuntime
   \<and> (\<exists>pd. findPluginDevice
          (upsertAll exampleDefaults
             [(''p'', announce (Some ''cam'') [''OnOff'']),
              (''p'', announce (Some ''cam'') [''Brightness''])] cameraRuntime)
          ''p'' (Some ''cam'') = Some pd
        \<and> getMixins pd = [Some ''9'']
        \<and> sorted (getInterfaces pd) \<and> distinct (getInterfaces pd)
        \<and> set (providedInterfacesOf (announce (Some ''cam'') [''OnOff''])) \<subseteq> set (getInterfaces pd)
        \<and> set (providedInterfacesOf (announce (Some ''cam'') [''Brightness''])) \<subseteq> set (getInterfaces pd))
   \<and> wfTable emptyRuntime \<and> freshIds emptyRuntime
   \<and> (\<exists>pd. findPluginDevice
          (upsertAll exampleDefaults
             [(''p'', announce (Some ''cam'') [''OnOff'']),
              (''p'', announce (Some ''cam'') [''Battery''])] emptyRuntime)
          ''p'' (Some ''cam'') = Some pd
        \<and> getMixins pd = []
        \<and> getInterfaces pd = providedInterfacesOf (announce (Some ''cam'') [''Battery'']))"
proof -
  let ?calls = "[(''p'', announce (Some ''cam'') [''OnOff'']),
                 (''p'', announce (Some ''cam'') [''Brightness''])]"
  have wf: "wfTable cameraRuntime" "freshIds cameraRuntime" by code_simp+
  have call: "(''p'', announce (Some ''cam'') [''OnOff'']) \<in> set ?calls"
    "(''p'', announce (Some ''cam'') [''Brightness'']) \<in> set ?calls"
    "d_nativeId (announce (Some ''cam'') [''OnOff'']) = Some ''cam''"
    "d_nativeId (announce (Some ''cam'') [''Brightness'']) = Some ''cam''"
    by (simp_all add: announce_def)
  from upsertAll_interfaces_union[OF wf call(1,3), of exampleDefaults]
  obtain pd where pd:
    "findPluginDevice (upsertAll exampleDefaults ?calls cameraRuntime) ''p'' (Some ''cam'') = Some pd"
    "sorted (getInterfaces pd)" "distinct (getInterfaces pd)"
    "getMixins pd \<noteq> [] \<longrightarrow>
       (\<forall>device. (''p'', device) \<in> set ?calls \<and> d_nativeId device = Some ''cam''
          \<longrightarrow> set (providedInterfacesOf device) \<subseteq> set (getInterfaces pd))"
    by blast
  have "map_option getMixins
          (findPluginDevice (upsertAll exampleDefaults ?calls cameraRuntime) ''p'' (Some ''cam''))
        = Some [Some ''9'']"
    by code_simp
  with pd(1) have mx: "getMixins pd = [Some ''9'']" by simp
  with pd(4) have incl: "set (providedInterfacesOf device) \<subseteq> set (getInterfaces pd)"
    if "(''p'', device) \<in> set ?calls" "d_nativeId device = Some ''cam''" for device
    using that by simp
  from incl[OF call(1,3)] incl[OF call(2,4)] wf pd(1,2,3) mx
  have first: "\<exists>pd. findPluginDevice (upsertAll exampleDefaults ?calls cameraRuntime) ''p'' (Some ''cam'') = Some pd
        \<and> getMixins pd = [Some ''9'']
        \<and> sorted (getInterfaces pd) \<and> distinct (getInterfaces pd)
        \<and> set (providedInterfacesOf (announce (Some ''cam'') [''OnOff''])) \<subseteq> set (getInterfaces pd)
        \<and> set (providedInterfacesOf (announce (Some ''cam'') [''Brightness''])) \<subseteq> set (getInterfaces pd)"
    by (intro conjI exI[of _ pd])
  let ?calls2 = "[(''p'', announce (Some ''cam'') [''OnOff'']),
                  (''p'', announce (Some ''cam'') [''Battery''])]"
  let ?latest = "announce (Some ''cam'') [''Battery'']"
  have wf0: "wfTable emptyRuntime" "freshIds emptyRuntime" by code_simp+
  have call2: "(''p'', announce (Some ''cam'') [''OnOff'']) \<in> set ?calls2" by simp
  have split: "?calls2 = [(''p'', announce (Some ''cam'') [''OnOff''])] @ (''p'', ?latest) # []
      \<and> d_nativeId ?latest = Some ''cam''
      \<and> (\<forall>c \<in> set []. \<not> (fst c = ''p'' \<and> d_nativeId (snd c) = Some ''cam''))"
    by (simp add: announce_def)
  from upsertAll_interfaces_union[OF wf0 call2 call(3), of exampleDefaults]
  obtain pd2 where pd2:
    "findPluginDevice (upsertAll exampleDefaults ?calls2 emptyRuntime) ''p'' (Some ''cam'') = Some pd2"
    "\<forall>cs1 device cs2. ?calls2 = cs1 @ (''p'', device) # cs2 \<and> d_nativeId device = Some ''cam''
            \<and> (\<forall>c \<in> set cs2. \<not> (fst c = ''p'' \<and> d_nativeId (snd c) = Some ''cam''))
          \<longrightarrow> set (providedInterfacesOf device) \<subseteq> set (getInterfaces pd2)
              \<and> (getMixins pd2 = [] \<longrightarrow> getInterfaces pd2 = providedInterfacesOf device)"
    by blast
  from pd2(2) split have ex: "getMixins pd2 = [] \<longrightarrow> getInterfaces pd2 = providedInterfacesOf ?latest"
    by blast
  have "map_option getMixins
          (findPluginDevice (upsertAll exampleDefaults ?calls2 emptyRuntime) ''p'' (Some ''cam''))
        = Some []"
    by code_simp
  with pd2(1) have mx2: "getMixins pd2 = []" by simp
  with ex have "getInterfaces pd2 = providedInterfacesOf ?latest" by simp
  with pd2(1) mx2
  have second: "\<exists>pd. findPluginDevice (upsertAll exampleDefaults ?calls2 emptyRuntime) ''p'' (Some ''cam'') = Some pd
        \<and> getMixins pd = [] \<and> getInterfaces pd = providedInterfacesOf ?latest"
    by blast
  show ?thesis by (intro conjI wf first wf0 second)
qed

text \<open>
  The claim as it was stated fails on a device without mixins: the second call replaces
  the interfaces of the first.
\<close>

theorem upsertAll_interfaces_union_counterexample:
  "providedInterfacesOf (announce (Some ''cam'') [''OnOff'']) = [''OnOff'']
   \<and> map_option getInterfaces
        (findPluginDevice
           (upsertAll exampleDefaults
              [(''p'', announce (Some ''cam'') [''OnOff'']),
               (''p'', announce (Some ''cam'') [''Battery''])] emptyRuntime)
           ''p'' (Some ''cam'')) = Some [''Battery'']"
  by code_simp

section \<open>Idempotence\<close>

lemma mixinInterfacesOf_idem:
  assumes "getInterfaces u = mixinInterfacesOf f prov" "getMixins u = getMixins f"
  shows "mixinInterfacesOf u prov = mixinInterfacesOf f prov"
proof (cases "getMixins f = []")
  case True
  with assms show ?thesis by (simp add: mixinInterfacesOf_def)
next
  case False
  have "set (mixinInterfacesOf f prov @ prov) = set (getInterfaces f @ prov)"
    using False by (auto simp: mixinInterfacesOf_def sortInterfaces_set)
  from sortInterfaces_cong[OF this] show ?thesis
    using assms False by (simp add: mixinInterfacesOf_def)
qed

lemma getInterfaces_VStrings: "getState pd P_interfaces = VStrings xs \<Longrightarrow> getInterfaces pd = xs"
  by (simp add: getInterfaces_def)

text \<open>
  C3. Two calls of upsertDevice in a row with the same plugin id and declaration: the
  second returns interfacesChanged = false, and the device's persisted record holds the
  same interfaces (and provided interfaces) after the second call as after the first.
\<close>

theorem upsertDevice_idempotent:
  assumes "wfTable s"
  shows "\<not> fst (upsertDevice dflt pid device (snd (upsertDevice dflt pid device s)))
    \<and> (\<exists>i pd1 pd2.
          map_of (deviceRecords (datastore (snd (upsertDevice dflt pid device s)))) i = Some pd1
        \<and> map_of (deviceRecords (datastore (snd (upsertDevice dflt pid device
                    (snd (upsertDevice dflt pid device s)))))) i = Some pd2
        \<and> findPluginDevice (snd (upsertDevice dflt pid device s)) pid (d_nativeId device) = Some pd1
        \<and> findPluginDevice (snd (upsertDevice dflt pid device
              (snd (upsertDevice dflt pid device s)))) pid (d_nativeId device) = Some pd2
        \<and> getState pd2 P_interfaces = getState pd1 P_interfaces
        \<and> getState pd2 P_providedInterfaces = getState pd1 P_providedInterfaces)"
proof -
  let ?s1 = "snd (upsertDevice dflt pid device s)"
  let ?s2 = "snd (upsertDevice dflt pid device ?s1)"
  let ?u1 = "upserted dflt pid device s"
  let ?u2 = "upserted dflt pid device ?s1"
  let ?f = "fst (findOrCreate s pid device)"
  let ?prov = "providedInterfacesOf device"
  have f1: "findPluginDevice ?s1 pid (d_nativeId device) = Some ?u1"
    by (rule upsert_find_target[OF assms])
  have wf1: "wfTable ?s1"
    using assms setProperty_subset[of "pd_id ?u1" ?u1 "pluginDevices s"]
    unfolding wfTable_def by (auto simp: upsert_table setProperty_distinct)
  have f2: "findPluginDevice ?s2 pid (d_nativeId device) = Some ?u2"
    by (rule upsert_find_target[OF wf1])
  have foc: "findOrCreate ?s1 pid device = (?u1, ?s1)" by (simp add: findOrCreate_def f1)
  have i1: "getState ?u1 P_interfaces = VStrings (mixinInterfacesOf ?f ?prov)"
    and p1: "getState ?u1 P_providedInterfaces = VStrings ?prov"
    and m1: "getState ?u1 P_mixins = getState ?f P_mixins"
    by (simp_all add: upserted_def upsertFields_dev)
  have idem: "mixinInterfacesOf ?u1 ?prov = mixinInterfacesOf ?f ?prov"
    by (rule mixinInterfacesOf_idem) (simp_all add: getInterfaces_VStrings[OF i1] getMixins_def m1)
  have i2: "getState ?u2 P_interfaces = VStrings (mixinInterfacesOf ?u1 ?prov)"
    and p2: "getState ?u2 P_providedInterfaces = VStrings ?prov"
    and id2: "pd_id ?u2 = pd_id ?u1"
    by (simp_all add: upserted_def upsertFields_dev foc)
  have unchanged: "\<not> fst (upsertDevice dflt pid device ?s1)"
    by (simp add: upsert_changed foc upsertFields_changed i1 p1 idem)
  have r1: "map_of (deviceRecords (datastore ?s1)) (pd_id ?u1) = Some ?u1"
    by (simp add: upsert_records update_conv')
  have r2: "map_of (deviceRecords (datastore ?s2)) (pd_id ?u1) = Some ?u2"
    by (simp add: upsert_records[of dflt pid device ?s1] update_conv' id2)
  have "getState ?u2 P_interfaces = getState ?u1 P_interfaces" by (simp add: i1 i2 idem)
  moreover have "getState ?u2 P_providedInterfaces = getState ?u1 P_providedInterfaces" by (simp add: p1 p2)
  ultimately show ?thesis using unchanged r1 r2 f1 f2
    by (intro conjI exI[of _ "pd_id ?u1"] exI[of _ ?u1] exI[of _ ?u2])
qed

theorem upsertDevice_idempotent_witness:
  "wfTable cameraRuntime
   \<and> fst (upsertDevice exampleDefaults ''p'' (announce (Some ''cam'') [''OnOff'']) cameraRuntime)
   \<and> \<not> fst (upsertDevice exampleDefaults ''p'' (announce (Some ''cam'') [''OnOff''])
             (snd (upsertDevice exampleDefaults ''p'' (announce (Some ''cam'') [''OnOff'']) cameraRuntime)))"
proof -
  have wf: "wfTable cameraRuntime" by code_simp
  have "fst (upsertDevice exampleDefaults ''p'' (announce (Some ''cam'') [''OnOff'']) cameraRuntime)"
    by code_simp
  with wf upsertDevice_idempotent[OF wf, of exampleDefaults "''p''" "announce (Some ''cam'') [''OnOff'']"]
  show ?thesis by blast
qed

section \<open>The plugin marker\<close>



section \<open>Invalidating mixins\<close>

inductive_set affected :: "string set \<Rightarrow> (string \<times> PluginDeviceProxyHandler) list \<Rightarrow> string set"
  for S :: "string set" and ds :: "(string \<times> PluginDeviceProxyHandler) list" where
  direct: "(k, h) \<in> set ds \<Longrightarrow> i \<in> set (providerIds h) \<Longrightarrow> i \<in> S \<Longrightarrow> handler_id h \<in> affected S ds"
| onward: "(k, h) \<in> set ds \<Longrightarrow> i \<in> set (providerIds h) \<Longrightarrow> i \<in> affected S ds \<Longrightarrow> handler_id h \<in> affected S ds"

lemma affected_closed: "closedUnder S ds (affected S ds)"
  unfolding closedUnder_def by (auto intro: affected.intros)

lemma affected_least: "closedUnder S ds R \<Longrightarrow> affected S ds \<subseteq> R"
proof
  fix x assume c: "closedUnder S ds R" and "x \<in> affected S ds"
  from this(2) show "x \<in> R"
    by induction (use c in \<open>auto simp: closedUnder_def\<close>)
qed

lemma findIndex_None: "(findIndex P xs = None) = (\<forall>x \<in> set xs. \<not> P x)"
  by (induction xs) auto

lemma findIndex_Some:
  "findIndex P xs = Some n \<Longrightarrow> n < length xs \<and> P (xs ! n) \<and> (\<forall>m < n. \<not> P (xs ! m))"
proof (induction xs arbitrary: n)
  case Nil
  then show ?case by simp
next
  case (Cons x xs)
  show ?case
  proof (cases "P x")
    case True
    with Cons.prems show ?thesis by simp
  next
    case False
    with Cons.prems obtain n' where n': "findIndex P xs = Some n'" "n = Suc n'" by auto
    from Cons.IH[OF n'(1)] False n'(2) show ?thesis by (auto simp: nth_Cons split: nat.splits)
  qed
qed

lemma set_map_filter: "set (List.map_filter f xs) = {y. \<exists>x \<in> set xs. f x = Some y}"
  by (induction xs) (auto simp: List.map_filter_simps split: option.splits)

lemma match_iff:
  "(findIndex (\<lambda>mt. mixinProviderId mt = Some i) table = None) = (i \<notin> set (List.map_filter mixinProviderId table))"
  by (auto simp: findIndex_None set_map_filter)

definition pushed :: "string \<Rightarrow> pass1 \<Rightarrow> event list \<Rightarrow> pass1" where
  "pushed d = (\<lambda>(ret, remaining, evs) new.
     if d \<in> set ret then (ret, remaining, evs @ new) else (ret @ [d], d # remaining, evs @ new))"

lemma invalidateIn_cases:
  obtains
    (miss) "i \<notin> set (providerIds h)" "invalidateIn i h acc = (h, acc)"
  | (terminal) table where "mixinTable h = Some table" "i \<in> set (providerIds h)"
      "findIndex (\<lambda>mt. mixinProviderId mt = Some i) table = Some (length table - 1)"
      "invalidateIn i h acc
         = (h, pushed (handler_id h) acc [Console (ConsoleWarn ''attempt to invalidate mixin on actual device?'')])"
  | (splice) table fi where "mixinTable h = Some table" "i \<in> set (providerIds h)"
      "findIndex (\<lambda>mt. mixinProviderId mt = Some i) table = Some fi" "fi + 1 < length table"
      "invalidateIn i h acc
         = (h\<lparr>mixinTable := Some (drop (fi + 1) table)\<rparr>,
            pushed (handler_id h) acc (releases (handler_id h) (take (fi + 1) table)))"
proof -
  obtain ret remaining evs where acc: "acc = (ret, remaining, evs)" by (cases acc)
  show thesis
  proof (cases "mixinTable h")
    case None
    then show ?thesis using miss by (simp add: providerIds_def invalidateIn_def acc)
  next
    case (Some table)
    show ?thesis
    proof (cases "findIndex (\<lambda>mt. mixinProviderId mt = Some i) table")
      case None
      then show ?thesis using miss Some by (simp add: providerIds_def invalidateIn_def acc match_iff[symmetric])
    next
      case fi: (Some fi)
      then have in_p: "i \<in> set (providerIds h)" using Some match_iff[of i table] by (simp add: providerIds_def)
      from findIndex_Some[OF fi] have lt: "fi < length table" by simp
      show ?thesis
      proof (cases "fi = length table - 1")
        case True
        show ?thesis
          by (rule terminal[OF Some in_p]) (use True fi Some in \<open>auto simp: invalidateIn_def acc pushed_def Let_def\<close>)
      next
        case False
        with lt have "fi + 1 < length table" by simp
        then show ?thesis
          by (rule splice[OF Some in_p fi]) (use False fi Some in \<open>auto simp: invalidateIn_def acc pushed_def Let_def releases_def\<close>)
      qed
    qed
  qed
qed

definition spliceAt :: "string \<Rightarrow> PluginDeviceProxyHandler \<Rightarrow> PluginDeviceProxyHandler" where
  "spliceAt i h = fst (invalidateIn i h ([], [], []))"

lemma invalidateIn_fst: "fst (invalidateIn i h acc) = spliceAt i h"
  unfolding spliceAt_def
  by (cases rule: invalidateIn_cases[of i h acc]; cases rule: invalidateIn_cases[of i h "([], [], [])"]) auto

lemma scanDevices_fst: "fst (scanDevices i ds acc) = map (\<lambda>(k, h). (k, spliceAt i h)) ds"
proof (induction ds arbitrary: acc)
  case Nil
  then show ?case by simp
next
  case (Cons d ds)
  obtain k h where d: "d = (k, h)" by (cases d)
  show ?case using Cons[of "snd (invalidateIn i h acc)"]
    by (simp add: d split_def Let_def invalidateIn_fst)
qed

definition matched :: "string \<Rightarrow> (string \<times> PluginDeviceProxyHandler) list \<Rightarrow> string set" where
  "matched i ds = {handler_id h | k h. (k, h) \<in> set ds \<and> i \<in> set (providerIds h)}"

lemma matched_Cons:
  "matched i ((k, h) # ds) = (if i \<in> set (providerIds h) then {handler_id h} else {}) \<union> matched i ds"
  by (auto simp: matched_def)

definition evolved :: "string set \<Rightarrow> PluginDeviceProxyHandler \<Rightarrow> PluginDeviceProxyHandler \<Rightarrow> bool" where
  "evolved X h0 h =
     (handler_id h = handler_id h0 \<and> (mixinTable h = None) = (mixinTable h0 = None)
      \<and> (\<exists>n. (n = 0 \<or> (n < length (chain h0) \<and> mixinProviderId (chain h0 ! (n - 1)) \<in> Some ` X))
             \<and> chain h = drop n (chain h0)))"

lemma providerIds_chain: "providerIds h = List.map_filter mixinProviderId (chain h)"
  by (simp add: providerIds_def chain_def List.map_filter_simps split: option.splits)

lemma map_filter_append: "List.map_filter f (xs @ ys) = List.map_filter f xs @ List.map_filter f ys"
  by (simp add: List.map_filter_def)

lemma map_filter_drop_suffix: "\<exists>pre. List.map_filter f xs = pre @ List.map_filter f (drop n xs)"
  by (metis append_take_drop_id map_filter_append)

lemma spliceAt_cases:
  obtains (same) "spliceAt i h = h" "i \<notin> set (innerIds h)"
  | (splice) table fi where "mixinTable h = Some table"
      "findIndex (\<lambda>mt. mixinProviderId mt = Some i) table = Some fi" "fi + 1 < length table"
      "spliceAt i h = h\<lparr>mixinTable := Some (drop (fi + 1) table)\<rparr>"
proof (cases rule: invalidateIn_cases[of i h "([], [], [])"])
  case miss
  have "set (innerIds h) \<subseteq> set (providerIds h)"
    unfolding innerIds_def providerIds_chain set_map_filter by (auto dest: in_set_butlastD)
  with miss show ?thesis using same by (auto simp: spliceAt_def)
next
  case (terminal table)
  have "i \<notin> set (innerIds h)"
  proof
    assume "i \<in> set (innerIds h)"
    then obtain e where e: "e \<in> set (butlast table)" "mixinProviderId e = Some i"
      using terminal(1) by (auto simp: innerIds_def chain_def set_map_filter)
    then obtain m where m: "m < length (butlast table)" "butlast table ! m = e"
      by (auto simp: in_set_conv_nth)
    then have "m < length table - 1" "table ! m = e" by (simp_all add: nth_butlast)
    with findIndex_Some[OF terminal(3)] e(2) show False by auto
  qed
  with terminal show ?thesis using same by (auto simp: spliceAt_def)
next
  case (splice table fi)
  then show ?thesis using that(2) by (auto simp: spliceAt_def)
qed

lemma spliceAt_miss: "i \<notin> set (providerIds h) \<Longrightarrow> spliceAt i h = h"
  by (cases rule: invalidateIn_cases[of i h "([], [], [])"]) (auto simp: spliceAt_def)

lemma spliceAt_id: "handler_id (spliceAt i h) = handler_id h"
  by (cases rule: spliceAt_cases[of i h]) auto

lemma evolved_refl: "evolved X h h"
  unfolding evolved_def by (auto intro: exI[of _ 0])

lemma evolved_mono: "evolved X h0 h \<Longrightarrow> X \<subseteq> Y \<Longrightarrow> evolved Y h0 h"
  unfolding evolved_def by blast

lemma evolvedD:
  assumes "evolved X h0 h"
  obtains n where "handler_id h = handler_id h0" "(mixinTable h = None) = (mixinTable h0 = None)"
    "chain h = drop n (chain h0)"
    "n = 0 \<or> (n < length (chain h0) \<and> mixinProviderId (chain h0 ! (n - 1)) \<in> Some ` X)"
proof -
  from assms have a: "handler_id h = handler_id h0" and b: "(mixinTable h = None) = (mixinTable h0 = None)"
    and "\<exists>n. (n = 0 \<or> (n < length (chain h0) \<and> mixinProviderId (chain h0 ! (n - 1)) \<in> Some ` X))
             \<and> chain h = drop n (chain h0)"
    unfolding evolved_def by simp_all
  then obtain n where c: "n = 0 \<or> (n < length (chain h0) \<and> mixinProviderId (chain h0 ! (n - 1)) \<in> Some ` X)"
    and d: "chain h = drop n (chain h0)" by auto
  show thesis by (rule that[OF a b d c])
qed

lemma evolved_step:
  assumes "evolved X h0 h" "i \<in> X"
  shows "evolved X h0 (spliceAt i h)"
proof (cases rule: spliceAt_cases[of i h])
  case same
  with assms show ?thesis by simp
next
  case (splice table fi)
  from assms(1) obtain n where n: "handler_id h = handler_id h0" "(mixinTable h = None) = (mixinTable h0 = None)"
    "chain h = drop n (chain h0)" by (rule evolvedD)
  have tb: "chain h = table" using splice(1) by (simp add: chain_def)
  from splice(3) tb n(3) have lt: "n + fi + 1 < length (chain h0)" by auto
  from findIndex_Some[OF splice(2)] have "mixinProviderId (table ! fi) = Some i" by simp
  moreover have "drop n (chain h0) ! fi = chain h0 ! (n + fi)"
    using lt by (intro nth_drop) simp
  then have "table ! fi = chain h0 ! (n + fi)"
    using tb n(3) by simp
  ultimately have p: "mixinProviderId (chain h0 ! (n + fi)) = Some i" by simp
  have c: "chain (spliceAt i h) = drop (n + fi + 1) (chain h0)"
    using splice(4) tb n(3) by (simp add: chain_def add.commute)
  have "(n + fi + 1 < length (chain h0) \<and> mixinProviderId (chain h0 ! (n + fi + 1 - 1)) \<in> Some ` X)"
    using lt p assms(2) by simp
  with c have "\<exists>m. (m = 0 \<or> (m < length (chain h0) \<and> mixinProviderId (chain h0 ! (m - 1)) \<in> Some ` X))
             \<and> chain (spliceAt i h) = drop m (chain h0)"
    by blast
  moreover have "(mixinTable (spliceAt i h) = None) = (mixinTable h0 = None)"
    using splice(1,4) n(2) by simp
  ultimately show ?thesis
    unfolding evolved_def using n(1) by (simp add: spliceAt_id)
qed

lemma evolved_providers:
  assumes "evolved X h0 h" shows "set (providerIds h) \<subseteq> set (providerIds h0)"
proof -
  from assms obtain n where "chain h = drop n (chain h0)" by (rule evolvedD)
  then show ?thesis
    unfolding providerIds_chain set_map_filter by (auto dest: in_set_dropD)
qed

lemma evolved_distinct:
  assumes "evolved X h0 h" "distinct (providerIds h0)" shows "distinct (providerIds h)"
proof -
  from assms(1) obtain n where n: "chain h = drop n (chain h0)" by (rule evolvedD)
  obtain pre where "List.map_filter mixinProviderId (chain h0)
      = pre @ List.map_filter mixinProviderId (drop n (chain h0))"
    using map_filter_drop_suffix by blast
  with assms(2) n show ?thesis unfolding providerIds_chain by (metis distinct_append)
qed

lemma spliceAt_inner_subset: "set (innerIds (spliceAt i h)) \<subseteq> set (innerIds h)"
proof (cases rule: spliceAt_cases[of i h])
  case same
  then show ?thesis by simp
next
  case (splice table fi)
  then have "butlast (chain (spliceAt i h)) = drop (fi + 1) (butlast (chain h))"
    by (simp add: chain_def butlast_drop)
  then show ?thesis unfolding innerIds_def set_map_filter by (auto dest: in_set_dropD)
qed

lemma spliceAt_inner_free:
  assumes "distinct (providerIds h)" shows "i \<notin> set (innerIds (spliceAt i h))"
proof (cases rule: spliceAt_cases[of i h])
  case same
  then show ?thesis by simp
next
  case (splice table fi)
  from findIndex_Some[OF splice(2)] have fi: "fi < length table" "mixinProviderId (table ! fi) = Some i"
    by simp_all
  have "table = take fi table @ table ! fi # drop (fi + 1) table"
    using fi(1) by (simp add: id_take_nth_drop)
  then have "List.map_filter mixinProviderId table
      = List.map_filter mixinProviderId (take fi table)
        @ List.map_filter mixinProviderId (table ! fi # drop (fi + 1) table)"
    by (metis map_filter_append)
  then have "providerIds h = List.map_filter mixinProviderId (take fi table) @ i # List.map_filter mixinProviderId (drop (fi + 1) table)"
    using splice(1) fi(2) by (simp add: providerIds_def List.map_filter_simps)
  with assms have "i \<notin> set (List.map_filter mixinProviderId (drop (fi + 1) table))" by auto
  moreover have "set (innerIds (spliceAt i h)) \<subseteq> set (List.map_filter mixinProviderId (drop (fi + 1) table))"
    using splice(4) unfolding innerIds_def set_map_filter by (auto simp: chain_def dest: in_set_butlastD)
  ultimately show ?thesis by auto
qed

lemma pass1Event_mono: "pass1Event R ev \<Longrightarrow> R \<subseteq> R' \<Longrightarrow> pass1Event R' ev"
  by (cases ev) auto

lemma released_append: "released (xs @ ys) = released xs \<union> released ys"
  by (auto simp: released_def)

lemma released_releases: "released (releases d xs) = {d} \<times> set xs"
  by (induction xs) (auto simp: released_def releases_def)

lemma removed_same: "removed h h = []"
  by (simp add: removed_def)

lemma removed_comp:
  assumes "chain h1 = drop n (chain h0)" "chain h2 = drop m (chain h1)"
  shows "set (removed h0 h2) = set (removed h0 h1) \<union> set (removed h1 h2)"
proof -
  let ?c = "chain h0"
  define n' where "n' = min n (length ?c)"
  define m' where "m' = min m (length ?c - n')"
  have c1: "chain h1 = drop n' ?c" using assms(1) by (simp add: n'_def min_def)
  have c2: "chain h2 = drop (n' + m') ?c" using assms(2) c1 by (simp add: m'_def min_def add.commute)
  have r1: "removed h0 h1 = take n' ?c" unfolding removed_def c1 by (simp add: n'_def)
  have r2: "removed h1 h2 = take m' (drop n' ?c)" unfolding removed_def c1 c2 by (simp add: n'_def m'_def)
  have r3: "removed h0 h2 = take (n' + m') ?c" unfolding removed_def c2 by (simp add: n'_def m'_def)
  show ?thesis unfolding r1 r2 r3 by (simp add: take_add)
qed

lemma invalidateIn_snd:
  obtains new where
    "snd (invalidateIn i h (ret, remaining, evs)) =
       (if i \<in> set (providerIds h) \<and> handler_id h \<notin> set ret
        then (ret @ [handler_id h], handler_id h # remaining, evs @ new) else (ret, remaining, evs @ new))"
    "\<forall>ev \<in> set new. (\<exists>l. ev = Console l) \<or> (\<exists>e. ev = InvalidateEntry (handler_id h) e \<and> i \<in> set (providerIds h))"
    "released new = {handler_id h} \<times> set (removed h (spliceAt i h))"
proof (cases rule: invalidateIn_cases[of i h "(ret, remaining, evs)"])
  case miss
  then have "spliceAt i h = h" by (simp add: spliceAt_miss)
  then show ?thesis using miss by (intro that[of "[]"]) (auto simp: removed_same released_def)
next
  case (terminal table)
  then have "spliceAt i h = h" using invalidateIn_fst[of i h "(ret, remaining, evs)"] by simp
  then show ?thesis using terminal
    by (intro that[of "[Console (ConsoleWarn ''attempt to invalidate mixin on actual device?'')]"])
       (auto simp: pushed_def removed_same released_def)
next
  case (splice table fi)
  then have s: "spliceAt i h = h\<lparr>mixinTable := Some (drop (fi + 1) table)\<rparr>"
    using invalidateIn_fst[of i h "(ret, remaining, evs)"] by simp
  have "removed h (spliceAt i h) = take (fi + 1) table"
    unfolding s removed_def using splice(1,4) by (simp add: chain_def)
  then show ?thesis using splice
    by (intro that[of "releases (handler_id h) (take (fi + 1) table)"])
       (auto simp: pushed_def releases_def released_releases[unfolded releases_def])
qed

lemma scanDevices_snd:
  "\<exists>ret' remaining' new. snd (scanDevices i ds (ret, remaining, evs)) = (ret', remaining', evs @ new)
     \<and> set ret' = set ret \<union> matched i ds
     \<and> set remaining' = set remaining \<union> (matched i ds - set ret)
     \<and> (\<forall>ev \<in> set new. pass1Event (matched i ds) ev)
     \<and> released new = (\<Union>(k, h) \<in> set ds. {handler_id h} \<times> set (removed h (spliceAt i h)))"
proof (induction ds arbitrary: ret remaining evs)
  case Nil
  then show ?case by (simp add: matched_def released_def)
next
  case (Cons d ds)
  obtain k h where d: "d = (k, h)" by (cases d)
  obtain new where new:
    "snd (invalidateIn i h (ret, remaining, evs)) =
       (if i \<in> set (providerIds h) \<and> handler_id h \<notin> set ret
        then (ret @ [handler_id h], handler_id h # remaining, evs @ new) else (ret, remaining, evs @ new))"
    "\<forall>ev \<in> set new. (\<exists>l. ev = Console l) \<or> (\<exists>e. ev = InvalidateEntry (handler_id h) e \<and> i \<in> set (providerIds h))"
    "released new = {handler_id h} \<times> set (removed h (spliceAt i h))"
    by (rule invalidateIn_snd)
  let ?a = "snd (invalidateIn i h (ret, remaining, evs))"
  have "\<exists>r1 m1. ?a = (r1, m1, evs @ new)
    \<and> set r1 = set ret \<union> (if i \<in> set (providerIds h) then {handler_id h} else {})
    \<and> set m1 = set remaining \<union> ((if i \<in> set (providerIds h) then {handler_id h} else {}) - set ret)"
  proof (cases "i \<in> set (providerIds h) \<and> handler_id h \<notin> set ret")
    case True
    then show ?thesis using new(1) by auto
  next
    case False
    then have "?a = (ret, remaining, evs @ new)" using new(1) by simp
    with False show ?thesis by auto
  qed
  then obtain r1 m1 where a: "?a = (r1, m1, evs @ new)"
    and r1: "set r1 = set ret \<union> (if i \<in> set (providerIds h) then {handler_id h} else {})"
    and m1: "set m1 = set remaining \<union> ((if i \<in> set (providerIds h) then {handler_id h} else {}) - set ret)"
    by blast
  from Cons.IH[of r1 m1 "evs @ new"] obtain ret' remaining' new' where
    ih: "snd (scanDevices i ds (r1, m1, evs @ new)) = (ret', remaining', (evs @ new) @ new')"
      "set ret' = set r1 \<union> matched i ds" "set remaining' = set m1 \<union> (matched i ds - set r1)"
      "\<forall>ev \<in> set new'. pass1Event (matched i ds) ev"
      "released new' = (\<Union>(k, h) \<in> set ds. {handler_id h} \<times> set (removed h (spliceAt i h)))"
    by blast
  have s: "snd (scanDevices i (d # ds) (ret, remaining, evs)) = (ret', remaining', evs @ (new @ new'))"
    using ih(1) a by (simp add: d split_def Let_def)
  have "pass1Event (matched i (d # ds)) ev" if "ev \<in> set new" for ev
    using new(2) that by (auto simp: d matched_Cons)
  moreover have "pass1Event (matched i (d # ds)) ev" if "ev \<in> set new'" for ev
    using ih(4) that by (auto intro: pass1Event_mono simp: d matched_Cons)
  ultimately have e: "\<forall>ev \<in> set (new @ new'). pass1Event (matched i (d # ds)) ev"
    by auto
  have rl: "released (new @ new') = (\<Union>(k, h) \<in> set (d # ds). {handler_id h} \<times> set (removed h (spliceAt i h)))"
    unfolding released_append new(3) ih(5) by (simp add: d)
  have st: "set ret' = set ret \<union> matched i (d # ds)"
    "set remaining' = set remaining \<union> (matched i (d # ds) - set ret)"
    using ih(2,3) r1 m1 by (auto simp: d matched_Cons)
  show ?case
    using s e rl st by (intro exI[of _ ret'] exI[of _ remaining'] exI[of _ "new @ new'"] conjI)
qed

definition INV ::
  "string set \<Rightarrow> (string \<times> PluginDeviceProxyHandler) list \<Rightarrow> string set
    \<Rightarrow> (PluginDeviceProxyHandler \<Rightarrow> PluginDeviceProxyHandler)
    \<Rightarrow> (string \<times> PluginDeviceProxyHandler) list \<Rightarrow> string list \<Rightarrow> string list \<Rightarrow> event list \<Rightarrow> bool" where
  "INV S ds0 Q G ds ret remaining new =
     (ds = map (\<lambda>(k, h). (k, G h)) ds0
      \<and> (\<forall>(k, h0) \<in> set ds0. evolved (S \<union> set ret) h0 (G h0) \<and> (handler_id h0 \<notin> set ret \<longrightarrow> G h0 = h0))
      \<and> set ret \<subseteq> affected S ds0
      \<and> distinct ret
      \<and> set remaining \<subseteq> S \<union> set ret
      \<and> S \<union> set ret \<subseteq> Q \<union> set remaining
      \<and> (\<forall>j \<in> Q. matched j ds0 \<subseteq> set ret)
      \<and> ((\<forall>(k, h0) \<in> set ds0. distinct (providerIds h0))
           \<longrightarrow> (\<forall>j \<in> Q. \<forall>(k, h0) \<in> set ds0. j \<notin> set (innerIds (G h0))))
      \<and> (\<forall>ev \<in> set new. pass1Event (set ret) ev)
      \<and> released new = (\<Union>(k, h0) \<in> set ds0. {handler_id h0} \<times> set (removed h0 (G h0))))"

lemma INV_init: "INV (set ids) ds {} (\<lambda>h. h) ds [] (rev ids) []"
  unfolding INV_def by (auto simp: evolved_refl removed_same released_def)

lemma matched_map:
  "matched i (map (\<lambda>(k, h). (k, G h)) ds0) = {handler_id (G h0) | k h0. (k, h0) \<in> set ds0 \<and> i \<in> set (providerIds (G h0))}"
  unfolding matched_def by force

lemma scanDevices_distinct:
  "distinct (fst acc) \<Longrightarrow> distinct (fst (snd (scanDevices i ds acc)))"
proof (induction ds arbitrary: acc)
  case Nil
  then show ?case by simp
next
  case (Cons d ds)
  obtain k h where d: "d = (k, h)" by (cases d)
  obtain ret remaining evs where acc: "acc = (ret, remaining, evs)" by (cases acc)
  have "distinct (fst (snd (invalidateIn i h acc)))"
    using Cons.prems unfolding acc
    by (cases rule: invalidateIn_cases[of i h "(ret, remaining, evs)"]) (auto simp: pushed_def)
  from Cons.IH[of "snd (invalidateIn i h acc)", OF this] show ?case
    by (simp add: d split_def Let_def)
qed

lemma INV_step:
  assumes inv: "INV S ds0 Q G ds ret (i # remaining) new"
    and scan: "scanDevices i ds (ret, remaining, evs) = (ds', ret', remaining', evs')"
  shows "\<exists>new1. evs' = evs @ new1 \<and> INV S ds0 (insert i Q) (spliceAt i \<circ> G) ds' ret' remaining' (new @ new1)"
proof -
  from inv have ds: "ds = map (\<lambda>(k, h). (k, G h)) ds0"
    and ev: "\<And>k h0. (k, h0) \<in> set ds0 \<Longrightarrow> evolved (S \<union> set ret) h0 (G h0)"
    and un: "\<And>k h0. (k, h0) \<in> set ds0 \<Longrightarrow> handler_id h0 \<notin> set ret \<Longrightarrow> G h0 = h0"
    and aff: "set ret \<subseteq> affected S ds0"
    and dist: "distinct ret"
    and rem: "set (i # remaining) \<subseteq> S \<union> set ret"
    and cov: "S \<union> set ret \<subseteq> Q \<union> set (i # remaining)"
    and seen: "\<And>j. j \<in> Q \<Longrightarrow> matched j ds0 \<subseteq> set ret"
    and inner: "\<And>j k h0. (\<forall>(k, h0) \<in> set ds0. distinct (providerIds h0))
           \<Longrightarrow> j \<in> Q \<Longrightarrow> (k, h0) \<in> set ds0 \<Longrightarrow> j \<notin> set (innerIds (G h0))"
    and evs: "\<forall>ev \<in> set new. pass1Event (set ret) ev"
    and rel: "released new = (\<Union>(k, h0) \<in> set ds0. {handler_id h0} \<times> set (removed h0 (G h0)))"
    unfolding INV_def by auto
  from rem have iX: "i \<in> S \<union> set ret" by simp
  have ds': "ds' = map (\<lambda>(k, h). (k, spliceAt i h)) ds"
    using scanDevices_fst[of i ds "(ret, remaining, evs)"] scan by simp
  from scanDevices_snd[of i ds ret remaining evs] scan
  obtain new1 where e1: "evs' = evs @ new1"
    and ret': "set ret' = set ret \<union> matched i ds"
    and rem': "set remaining' = set remaining \<union> (matched i ds - set ret)"
    and ev1: "\<forall>ev \<in> set new1. pass1Event (matched i ds) ev"
    and rel1: "released new1 = (\<Union>(k, h) \<in> set ds. {handler_id h} \<times> set (removed h (spliceAt i h)))"
    by auto
  have hid: "handler_id (G h0) = handler_id h0" if "(k, h0) \<in> set ds0" for k h0
    using ev[OF that] by (rule evolvedD)
  have m: "matched i ds = {handler_id h0 | k h0. (k, h0) \<in> set ds0 \<and> i \<in> set (providerIds (G h0))}"
    unfolding ds matched_map using hid by (auto; metis)
  have c1: "ds' = map (\<lambda>(k, h). (k, (spliceAt i \<circ> G) h)) ds0"
    unfolding ds' ds by (simp add: split_def)
  have c2: "evolved (S \<union> set ret') h0 ((spliceAt i \<circ> G) h0)
            \<and> (handler_id h0 \<notin> set ret' \<longrightarrow> (spliceAt i \<circ> G) h0 = h0)"
    if "(k, h0) \<in> set ds0" for k h0
  proof
    have "evolved (S \<union> set ret) h0 (spliceAt i (G h0))"
      using evolved_step[OF ev[OF that] iX] .
    then show "evolved (S \<union> set ret') h0 ((spliceAt i \<circ> G) h0)"
      using ret' by (auto intro: evolved_mono)
    show "handler_id h0 \<notin> set ret' \<longrightarrow> (spliceAt i \<circ> G) h0 = h0"
    proof
      assume n: "handler_id h0 \<notin> set ret'"
      then have "handler_id h0 \<notin> set ret" "handler_id h0 \<notin> matched i ds" using ret' by auto
      then have g: "G h0 = h0" and "handler_id h0 \<notin> {handler_id h0 | k h0. (k, h0) \<in> set ds0 \<and> i \<in> set (providerIds (G h0))}"
        using un[OF that] m by auto
      then have "i \<notin> set (providerIds (G h0))" using that by blast
      with g show "(spliceAt i \<circ> G) h0 = h0" by (simp add: spliceAt_miss)
    qed
  qed
  have c3: "set ret' \<subseteq> affected S ds0"
  proof -
    have "handler_id h0 \<in> affected S ds0" if "(k, h0) \<in> set ds0" "i \<in> set (providerIds (G h0))" for k h0
    proof -
      from evolved_providers[OF ev[OF that(1)]] that(2) have "i \<in> set (providerIds h0)" by auto
      with iX aff that(1) show ?thesis by (auto intro: affected.intros)
    qed
    with aff ret' m show ?thesis by auto
  qed
  have c3': "distinct ret'"
    using scanDevices_distinct[of "(ret, remaining, evs)" i ds] dist scan by simp
  have c4: "set remaining' \<subseteq> S \<union> set ret'" using rem rem' ret' by auto
  have c5: "S \<union> set ret' \<subseteq> insert i Q \<union> set remaining'" using cov rem' ret' by auto
  have c6: "matched j ds0 \<subseteq> set ret'" if "j \<in> insert i Q" for j
  proof (cases "j \<in> Q")
    case True
    with seen ret' show ?thesis by blast
  next
    case False
    with that have j: "j = i" by simp
    show ?thesis
    proof
      fix x assume "x \<in> matched j ds0"
      then obtain k h0 where h0: "(k, h0) \<in> set ds0" "i \<in> set (providerIds h0)" "x = handler_id h0"
        unfolding matched_def j by auto
      show "x \<in> set ret'"
      proof (cases "handler_id h0 \<in> set ret")
        case True
        with ret' h0 show ?thesis by simp
      next
        case False
        with un[OF h0(1)] h0 have "i \<in> set (providerIds (G h0))" by simp
        with h0 m ret' show ?thesis by auto
      qed
    qed
  qed
  have c7: "\<forall>j \<in> insert i Q. \<forall>(k, h0) \<in> set ds0. j \<notin> set (innerIds ((spliceAt i \<circ> G) h0))"
    if d: "\<forall>(k, h0) \<in> set ds0. distinct (providerIds h0)"
  proof (intro ballI, clarify)
    fix j k h0 assume j: "j \<in> insert i Q" and h0: "(k, h0) \<in> set ds0"
      and bad: "j \<in> set (innerIds ((spliceAt i \<circ> G) h0))"
    from d h0 have "distinct (providerIds (G h0))"
      using evolved_distinct[OF ev[OF h0]] by auto
    then have "i \<notin> set (innerIds (spliceAt i (G h0)))" by (rule spliceAt_inner_free)
    moreover have "j \<notin> set (innerIds (spliceAt i (G h0)))" if "j \<in> Q"
      using inner[OF d that h0] spliceAt_inner_subset[of i "G h0"] by auto
    ultimately show False using j bad by auto
  qed
  have c8: "\<forall>ev \<in> set (new @ new1). pass1Event (set ret') ev"
    using evs ev1 ret' by (auto intro: pass1Event_mono)
  have comp: "set (removed h0 ((spliceAt i \<circ> G) h0)) = set (removed h0 (G h0)) \<union> set (removed (G h0) (spliceAt i (G h0)))"
    if "(k, h0) \<in> set ds0" for k h0
  proof -
    from ev[OF that] obtain n where n: "chain (G h0) = drop n (chain h0)" by (rule evolvedD)
    from evolved_step[OF evolved_refl[of "S \<union> set ret" "G h0"] iX]
    obtain m where "chain (spliceAt i (G h0)) = drop m (chain (G h0))" by (rule evolvedD)
    from removed_comp[OF n this] show ?thesis by simp
  qed
  have r1: "released new1 = (\<Union>(k, h0) \<in> set ds0. {handler_id h0} \<times> set (removed (G h0) (spliceAt i (G h0))))"
    unfolding rel1 ds using hid by (auto simp: split_def)
  have comp': "set (removed (snd x) ((spliceAt i \<circ> G) (snd x)))
      = set (removed (snd x) (G (snd x))) \<union> set (removed (G (snd x)) (spliceAt i (G (snd x))))"
    if "x \<in> set ds0" for x
    using comp[of "fst x" "snd x"] that by simp
  have c9: "released (new @ new1) = (\<Union>(k, h0) \<in> set ds0. {handler_id h0} \<times> set (removed h0 ((spliceAt i \<circ> G) h0)))"
    unfolding released_append rel r1 split_def by (auto simp: comp' simp del: comp_apply)
  have "INV S ds0 (insert i Q) (spliceAt i \<circ> G) ds' ret' remaining' (new @ new1)"
    unfolding INV_def using c1 c2 c3 c3' c4 c5 c6 c7 c8 c9 by blast
  with e1 show ?thesis by blast
qed

lemma propagate_INV:
  "INV S ds0 Q G ds ret remaining new \<Longrightarrow> propagate ds (ret, remaining, evs0 @ new) = (ds', ret', remaining', evs')
    \<Longrightarrow> remaining' = [] \<and> (\<exists>Q' G' new'. evs' = evs0 @ new' \<and> INV S ds0 Q' G' ds' ret' [] new')"
proof (induction ds "(ret, remaining, evs0 @ new)" arbitrary: ret remaining new Q G rule: propagate.induct)
  case (1 ds ret)
  then show ?case by auto
next
  case (2 ds ret i remaining)
  obtain ds1 ret1 rem1 evs1 where scan: "scanDevices i ds (ret, remaining, evs0 @ new) = (ds1, ret1, rem1, evs1)"
    by (cases "scanDevices i ds (ret, remaining, evs0 @ new)") auto
  from INV_step[OF "2.prems"(1) scan] obtain new1 where e1: "evs1 = (evs0 @ new) @ new1"
    and inv1: "INV S ds0 (insert i Q) (spliceAt i \<circ> G) ds1 ret1 rem1 (new @ new1)" by blast
  from "2.prems"(2) scan have p: "propagate ds1 (ret1, rem1, evs1) = (ds', ret', remaining', evs')" by simp
  have e1': "evs1 = evs0 @ (new @ new1)" using e1 by simp
  have scan': "(ds1, ret1, rem1, evs0 @ (new @ new1)) = scanDevices i ds (ret, remaining, evs0 @ new)"
    using scan e1' by simp
  from "2.hyps"[OF refl scan' inv1 p[unfolded e1']] show ?case .
qed

lemma affected_handlerIds: "affected S ds \<subseteq> handlerIds ds"
proof
  fix x assume "x \<in> affected S ds"
  then show "x \<in> handlerIds ds"
    by cases (force simp: handlerIds_def)+
qed

lemma propagation_result:
  assumes "propagation ids s = (ds', ret, remaining, evs')"
  obtains Q G new where "INV (set ids) (devices s) Q G ds' ret [] new" "remaining = []" "evs' = events s @ new"
proof -
  from assms have p: "propagate (devices s) ([], rev ids, events s @ []) = (ds', ret, remaining, evs')"
    by (simp add: propagation_def)
  from propagate_INV[OF INV_init p] show thesis using that by blast
qed

lemma terminal_step:
  assumes "findIndex (\<lambda>mt. mixinProviderId mt = Some i) (chain h) = Some (length (chain h) - 1)"
  shows "\<exists>ret' remaining'. invalidateIn i h (ret, remaining, evs)
      = (h, ret', remaining', evs @ [Console (ConsoleWarn ''attempt to invalidate mixin on actual device?'')])"
proof (cases "mixinTable h")
  case None
  with assms show ?thesis by (simp add: chain_def)
next
  case (Some table)
  with assms show ?thesis by (simp add: invalidateIn_def chain_def Let_def split_def)
qed

lemma splice_step:
  assumes "findIndex (\<lambda>mt. mixinProviderId mt = Some i) (chain h) = Some fi" "fi + 1 < length (chain h)"
  shows "\<exists>ret' remaining'. invalidateIn i h (ret, remaining, evs)
      = (h\<lparr>mixinTable := Some (drop (fi + 1) (chain h))\<rparr>, ret', remaining',
         evs @ releases (handler_id h) (take (fi + 1) (chain h)))"
proof (cases "mixinTable h")
  case None
  with assms show ?thesis by (simp add: chain_def)
next
  case (Some table)
  with assms have "fi \<noteq> length table - 1" by (simp add: chain_def)
  with assms Some show ?thesis by (simp add: invalidateIn_def chain_def Let_def split_def releases_def)
qed

text \<open>
  C1. The first pass of invalidateMixins, for the ids \<open>ids\<close>, empties its worklist and
  leaves in \<^verbatim>\<open>ret\<close> the least set of device ids that is closed for \<open>ids\<close>: the id of
  a device is in it whenever the chain of its proxy has an entry whose provider is in
  \<open>ids\<close> or in the set. Every proxy keeps its key and its id (\<open>G h\<close> is the handler
  \<open>h\<close> after the pass). A device outside the set keeps its handler as it was. The chain
  of any device is afterwards a suffix of its chain before: either all of it, or what
  follows an entry of a provider in \<open>ids\<close> or in the set, and never without its last
  entry. If no chain names a provider twice, no entry of such a provider is left before
  the last entry of any chain. The pass emits console lines and releases only, releases
  only for devices of the set, and the entries released are those the chains lost. In
  each step, a match before the last entry of a chain removes and releases the entries
  from the head through the match and keeps the rest; a match at the last entry
  changes nothing and logs a warning.
\<close>

theorem invalidateMixins_propagation:
  assumes "propagation ids s = (ds', ret, remaining, evs')"
  shows "closedUnder (set ids) (devices s) (set ret)
    \<and> (\<forall>R. closedUnder (set ids) (devices s) R \<longrightarrow> set ret \<subseteq> R)
    \<and> remaining = []
    \<and> (\<exists>G new. ds' = map (\<lambda>(k, h). (k, G h)) (devices s) \<and> evs' = events s @ new
         \<and> (\<forall>(k, h) \<in> set (devices s).
               handler_id (G h) = handler_id h
             \<and> (handler_id h \<notin> set ret \<longrightarrow> G h = h)
             \<and> (mixinTable (G h) = None) = (mixinTable h = None)
             \<and> (\<exists>n. chain (G h) = drop n (chain h)
                  \<and> (n = 0 \<or> (n < length (chain h)
                        \<and> mixinProviderId (chain h ! (n - 1)) \<in> Some ` (set ids \<union> set ret)))))
         \<and> ((\<forall>(k, h) \<in> set (devices s). distinct (providerIds h))
              \<longrightarrow> (\<forall>(k, h) \<in> set (devices s). \<forall>i \<in> set ids \<union> set ret. i \<notin> set (innerIds (G h))))
         \<and> (\<forall>ev \<in> set new. pass1Event (set ret) ev)
         \<and> released new = (\<Union>(k, h) \<in> set (devices s). {handler_id h} \<times> set (removed h (G h))))
    \<and> (\<forall>i h ret0 remaining0 evs0 fi.
          findIndex (\<lambda>mt. mixinProviderId mt = Some i) (chain h) = Some fi \<and> fi + 1 < length (chain h)
          \<longrightarrow> (\<exists>ret1 remaining1. invalidateIn i h (ret0, remaining0, evs0)
                 = (h\<lparr>mixinTable := Some (drop (fi + 1) (chain h))\<rparr>, ret1, remaining1,
                    evs0 @ releases (handler_id h) (take (fi + 1) (chain h)))))
    \<and> (\<forall>i h ret0 remaining0 evs0.
          findIndex (\<lambda>mt. mixinProviderId mt = Some i) (chain h) = Some (length (chain h) - 1)
          \<longrightarrow> (\<exists>ret1 remaining1. invalidateIn i h (ret0, remaining0, evs0)
                 = (h, ret1, remaining1,
                    evs0 @ [Console (ConsoleWarn ''attempt to invalidate mixin on actual device?'')])))"
proof -
  let ?S = "set ids" and ?ds = "devices s"
  from assms obtain Q G new where inv: "INV ?S ?ds Q G ds' ret [] new" and rem: "remaining = []"
    and evs': "evs' = events s @ new"
    by (rule propagation_result)
  from inv have ds': "ds' = map (\<lambda>(k, h). (k, G h)) ?ds"
    and ev: "\<And>k h0. (k, h0) \<in> set ?ds \<Longrightarrow> evolved (?S \<union> set ret) h0 (G h0)"
    and un: "\<And>k h0. (k, h0) \<in> set ?ds \<Longrightarrow> handler_id h0 \<notin> set ret \<Longrightarrow> G h0 = h0"
    and aff: "set ret \<subseteq> affected ?S ?ds"
    and cov: "?S \<union> set ret \<subseteq> Q"
    and seen: "\<And>j. j \<in> Q \<Longrightarrow> matched j ?ds \<subseteq> set ret"
    and inner: "\<And>j k h0. (\<forall>(k, h0) \<in> set ?ds. distinct (providerIds h0))
           \<Longrightarrow> j \<in> Q \<Longrightarrow> (k, h0) \<in> set ?ds \<Longrightarrow> j \<notin> set (innerIds (G h0))"
    and evs: "\<forall>ev \<in> set new. pass1Event (set ret) ev"
    and rel: "released new = (\<Union>(k, h0) \<in> set ?ds. {handler_id h0} \<times> set (removed h0 (G h0)))"
    unfolding INV_def by auto
  have closed: "closedUnder ?S ?ds (set ret)"
    unfolding closedUnder_def
  proof (intro ballI, clarify)
    fix k h i assume h: "(k, h) \<in> set ?ds" "i \<in> set (providerIds h)" "i \<in> ?S \<or> i \<in> set ret"
    then have "i \<in> Q" using cov by auto
    moreover have "handler_id h \<in> matched i ?ds" using h by (auto simp: matched_def)
    ultimately show "handler_id h \<in> set ret" using seen by blast
  qed
  have least: "\<forall>R. closedUnder ?S ?ds R \<longrightarrow> set ret \<subseteq> R"
    using aff affected_least by blast
  have per: "handler_id (G h) = handler_id h
             \<and> (handler_id h \<notin> set ret \<longrightarrow> G h = h)
             \<and> (mixinTable (G h) = None) = (mixinTable h = None)
             \<and> (\<exists>n. chain (G h) = drop n (chain h)
                  \<and> (n = 0 \<or> (n < length (chain h)
                        \<and> mixinProviderId (chain h ! (n - 1)) \<in> Some ` (set ids \<union> set ret))))"
    if "(k, h) \<in> set ?ds" for k h
  proof -
    from ev[OF that] obtain n where "handler_id (G h) = handler_id h"
      "(mixinTable (G h) = None) = (mixinTable h = None)" "chain (G h) = drop n (chain h)"
      "n = 0 \<or> (n < length (chain h) \<and> mixinProviderId (chain h ! (n - 1)) \<in> Some ` (?S \<union> set ret))"
      by (rule evolvedD)
    with un[OF that] show ?thesis by blast
  qed
  have inn: "\<forall>(k, h) \<in> set ?ds. \<forall>i \<in> ?S \<union> set ret. i \<notin> set (innerIds (G h))"
    if "\<forall>(k, h) \<in> set ?ds. distinct (providerIds h)"
    using inner[OF that] cov by blast
  have "\<exists>G new. ds' = map (\<lambda>(k, h). (k, G h)) ?ds \<and> evs' = events s @ new
         \<and> (\<forall>(k, h) \<in> set ?ds.
               handler_id (G h) = handler_id h
             \<and> (handler_id h \<notin> set ret \<longrightarrow> G h = h)
             \<and> (mixinTable (G h) = None) = (mixinTable h = None)
             \<and> (\<exists>n. chain (G h) = drop n (chain h)
                  \<and> (n = 0 \<or> (n < length (chain h)
                        \<and> mixinProviderId (chain h ! (n - 1)) \<in> Some ` (set ids \<union> set ret)))))
         \<and> ((\<forall>(k, h) \<in> set ?ds. distinct (providerIds h))
              \<longrightarrow> (\<forall>(k, h) \<in> set ?ds. \<forall>i \<in> set ids \<union> set ret. i \<notin> set (innerIds (G h))))
         \<and> (\<forall>ev \<in> set new. pass1Event (set ret) ev)
         \<and> released new = (\<Union>(k, h) \<in> set ?ds. {handler_id h} \<times> set (removed h (G h)))"
    using ds' evs' per inn evs rel by (intro exI[of _ G] exI[of _ new]) blast
  then have big: "\<exists>G new. ds' = map (\<lambda>(k, h). (k, G h)) ?ds \<and> evs' = events s @ new
         \<and> (\<forall>(k, h) \<in> set ?ds.
               handler_id (G h) = handler_id h
             \<and> (handler_id h \<notin> set ret \<longrightarrow> G h = h)
             \<and> (mixinTable (G h) = None) = (mixinTable h = None)
             \<and> (\<exists>n. chain (G h) = drop n (chain h)
                  \<and> (n = 0 \<or> (n < length (chain h)
                        \<and> mixinProviderId (chain h ! (n - 1)) \<in> Some ` (set ids \<union> set ret)))))
         \<and> ((\<forall>(k, h) \<in> set ?ds. distinct (providerIds h))
              \<longrightarrow> (\<forall>(k, h) \<in> set ?ds. \<forall>i \<in> set ids \<union> set ret. i \<notin> set (innerIds (G h))))
         \<and> (\<forall>ev \<in> set new. pass1Event (set ret) ev)
         \<and> released new = (\<Union>(k, h) \<in> set ?ds. {handler_id h} \<times> set (removed h (G h)))" .
  have sp: "\<forall>i h ret0 remaining0 evs0 fi.
          findIndex (\<lambda>mt. mixinProviderId mt = Some i) (chain h) = Some fi \<and> fi + 1 < length (chain h)
          \<longrightarrow> (\<exists>ret1 remaining1. invalidateIn i h (ret0, remaining0, evs0)
                 = (h\<lparr>mixinTable := Some (drop (fi + 1) (chain h))\<rparr>, ret1, remaining1,
                    evs0 @ releases (handler_id h) (take (fi + 1) (chain h))))"
    using splice_step by blast
  have tm: "\<forall>i h ret0 remaining0 evs0.
          findIndex (\<lambda>mt. mixinProviderId mt = Some i) (chain h) = Some (length (chain h) - 1)
          \<longrightarrow> (\<exists>ret1 remaining1. invalidateIn i h (ret0, remaining0, evs0)
                 = (h, ret1, remaining1,
                    evs0 @ [Console (ConsoleWarn ''attempt to invalidate mixin on actual device?'')]))"
    using terminal_step by blast
  show ?thesis by (intro conjI closed least rem big sp tm)
qed

lemma rebuildMixinTables_ok:
  "\<forall>i \<in> set ret. \<exists>h. map_of (devices s) i = Some h \<and> handler_id h = i
    \<Longrightarrow> rebuildMixinTables ret s = (None, s\<lparr>events := events s @ map RebuildMixinTable ret\<rparr>)"
proof (induction ret arbitrary: s)
  case Nil
  then show ?case by simp
next
  case (Cons i ret)
  then obtain h where h: "map_of (devices s) i = Some h" "handler_id h = i" by auto
  let ?s1 = "s\<lparr>events := events s @ [RebuildMixinTable i]\<rparr>"
  have "\<forall>i \<in> set ret. \<exists>h. map_of (devices ?s1) i = Some h \<and> handler_id h = i"
    using Cons.prems by simp
  from Cons.IH[OF this] h show ?case by simp
qed

text \<open>
  C8. In a call of invalidateMixins on a proxy table whose keys are the handlers' ids,
  the first pass runs until its worklist is empty without a single rebuild; then
  rebuildMixinTable is called for exactly the ids of the result set, once each and in
  the order they were collected, and the call returns that set.
\<close>

theorem invalidateMixins_two_passes:
  assumes "\<forall>(k, h) \<in> set (devices s). handler_id h = k"
  shows "\<exists>ds ret pass1.
      propagation ids s = (ds, ret, [], events s @ pass1)
    \<and> (\<forall>i. RebuildMixinTable i \<notin> set pass1)
    \<and> distinct ret
    \<and> fst (invalidateMixins ids s) = Inr ret
    \<and> events (snd (invalidateMixins ids s)) = events s @ pass1 @ map RebuildMixinTable ret"
proof -
  obtain ds ret remaining evs' where p: "propagation ids s = (ds, ret, remaining, evs')"
    by (cases "propagation ids s") auto
  then obtain Q G new where inv: "INV (set ids) (devices s) Q G ds ret [] new" and rem: "remaining = []"
    and evs': "evs' = events s @ new"
    by (rule propagation_result)
  from inv have ds: "ds = map (\<lambda>(k, h). (k, G h)) (devices s)"
    and ev: "\<And>k h0. (k, h0) \<in> set (devices s) \<Longrightarrow> evolved (set ids \<union> set ret) h0 (G h0)"
    and aff: "set ret \<subseteq> affected (set ids) (devices s)"
    and dist: "distinct ret"
    and evs: "\<forall>ev \<in> set new. pass1Event (set ret) ev"
    unfolding INV_def by auto
  have nore: "RebuildMixinTable i \<notin> set new" for i
    using evs by (auto dest: bspec[of _ _ "RebuildMixinTable i"])
  let ?s1 = "s\<lparr>devices := ds, events := evs'\<rparr>"
  have look: "\<exists>h. map_of (devices ?s1) i = Some h \<and> handler_id h = i" if "i \<in> set ret" for i
  proof -
    from that aff affected_handlerIds have "i \<in> handlerIds (devices s)" by blast
    then obtain k h0 where "(k, h0) \<in> set (devices s)" "handler_id h0 = i" by (auto simp: handlerIds_def)
    with assms have "(i, h0) \<in> set (devices s)" by auto
    then obtain h1 where h1: "map_of (devices s) i = Some h1" by (meson weak_map_of_SomeI)
    then have in1: "(i, h1) \<in> set (devices s)" by (rule map_of_SomeD)
    with assms have "handler_id h1 = i" by auto
    moreover have "handler_id (G h1) = handler_id h1" using ev[OF in1] by (rule evolvedD)
    moreover have "map_of ds i = Some (G h1)"
      unfolding ds using h1 by (simp add: map_of_map)
    ultimately show ?thesis by simp
  qed
  from rebuildMixinTables_ok[of ret ?s1] look
  have rb: "rebuildMixinTables ret ?s1 = (None, ?s1\<lparr>events := events ?s1 @ map RebuildMixinTable ret\<rparr>)"
    by blast
  have r: "invalidateMixins ids s = (Inr ret, ?s1\<lparr>events := events ?s1 @ map RebuildMixinTable ret\<rparr>)"
    unfolding invalidateMixins_def p using rb by simp
  show ?thesis
    using p rem evs' nore dist r by (intro exI[of _ ds] exI[of _ ret] exI[of _ new]) simp
qed

theorem invalidateMixins_propagation_witness:
  "propagation [''2''] chainRuntime = (chainAfter, [''3'', ''6''], [], chainEvents)
   \<and> closedUnder (set [''2'']) (devices chainRuntime) (set [''3'', ''6''])"
proof -
  have p: "propagation [''2''] chainRuntime = (chainAfter, [''3'', ''6''], [], chainEvents)"
    by code_simp
  from invalidateMixins_propagation[OF p] p show ?thesis by blast
qed

theorem invalidateMixins_two_passes_witness:
  "fst (invalidateMixins [''2''] chainRuntime) = Inr [''3'', ''6'']
   \<and> events (snd (invalidateMixins [''2''] chainRuntime))
       = chainEvents @ [RebuildMixinTable ''3'', RebuildMixinTable ''6'']"
proof -
  have k: "\<forall>(k, h) \<in> set (devices chainRuntime). handler_id h = k" by code_simp
  have p: "propagation [''2''] chainRuntime = (chainAfter, [''3'', ''6''], [], chainEvents)"
    by code_simp
  have e: "events chainRuntime = []" by code_simp
  from invalidateMixins_two_passes[OF k, of "[''2'']"] p e show ?thesis by auto
qed

section \<open>Restarting plugins\<close>

definition sameSupervisor :: "ScryptedRuntime \<Rightarrow> ScryptedRuntime \<Rightarrow> bool" where
  "sameSupervisor s s' = (plugins s' = plugins s \<and> hosts s' = hosts s \<and> timers s' = timers s
     \<and> now s' = now s \<and> datastore s' = datastore s \<and> volumes s' = volumes s
     \<and> pluginDevices s' = pluginDevices s)"

lemma sameSupervisor_refl: "sameSupervisor s s"
  by (simp add: sameSupervisor_def)

lemma sameSupervisor_trans: "sameSupervisor a b \<Longrightarrow> sameSupervisor b c \<Longrightarrow> sameSupervisor a c"
  by (simp add: sameSupervisor_def)

lemma invalidatePluginDevice_same: "sameSupervisor s (invalidatePluginDevice i s)"
  by (simp add: sameSupervisor_def invalidatePluginDevice_def split: option.splits)

lemma probeDevice_same: "sameSupervisor s (probeDevice i s)"
  by (simp add: sameSupervisor_def probeDevice_def getDevice_def split_def Let_def split: option.splits)

lemma fold_same:
  "(\<And>x s. sameSupervisor s (f x s)) \<Longrightarrow> sameSupervisor s (fold f xs s)"
proof (induction xs arbitrary: s)
  case Nil
  then show ?case by (simp add: sameSupervisor_refl)
next
  case (Cons x xs)
  from Cons.IH[OF Cons.prems, of "f x s"] Cons.prems[of s x] show ?case
    by (auto intro: sameSupervisor_trans)
qed

lemma delete_absent: "map_of al k = None \<Longrightarrow> AList.delete k al = al"
  by (induction al) (auto split: if_splits)

lemma killHost_frame:
  "plugins (killHost r s) = plugins s" "length (hosts (killHost r s)) = length (hosts s)"
  "timers (killHost r s) = timers s" "now (killHost r s) = now s" "datastore (killHost r s) = datastore s"
  "host_pluginId (hosts (killHost r s) ! q) = host_pluginId (hosts s ! q)"
  "killed (hosts (killHost r s) ! q) = (killed (hosts s ! q) \<or> (q = r \<and> r < length (hosts s)))"
  by (auto simp: killHost_def nth_list_update)

lemma killPlugin_frame:
  "plugins (killPlugin pid s) = AList.delete pid (plugins s)"
  "length (hosts (killPlugin pid s)) = length (hosts s)"
  "timers (killPlugin pid s) = timers s" "now (killPlugin pid s) = now s"
  "datastore (killPlugin pid s) = datastore s"
  "host_pluginId (hosts (killPlugin pid s) ! q) = host_pluginId (hosts s ! q)"
  "killed (hosts s ! q) \<Longrightarrow> killed (hosts (killPlugin pid s) ! q)"
  by (auto simp: killPlugin_def killHost_frame delete_absent split: option.splits)

lemma runPlugin_frame:
  "fst (runPlugin plugin s) = length (hosts s)"
  "plugins (snd (runPlugin plugin s))
     = setProperty (plugin_id plugin) (length (hosts s)) (AList.delete (plugin_id plugin) (plugins s))"
  "length (hosts (snd (runPlugin plugin s))) = Suc (length (hosts s))"
  "timers (snd (runPlugin plugin s)) = timers s" "now (snd (runPlugin plugin s)) = now s"
  "datastore (snd (runPlugin plugin s)) = datastore s"
  "q < length (hosts s) \<Longrightarrow> host_pluginId (hosts (snd (runPlugin plugin s)) ! q) = host_pluginId (hosts s ! q)"
  "hosts (snd (runPlugin plugin s)) ! length (hosts s) = \<lparr>host_pluginId = plugin_id plugin, killed = False\<rparr>"
proof -
  let ?pid = "plugin_id plugin"
  let ?s1 = "killPlugin ?pid s"
  let ?pds = "findPluginDevices ?s1 ?pid"
  let ?s2 = "fold (\<lambda>pluginDevice. invalidatePluginDevice (pd_id pluginDevice)) ?pds ?s1"
  let ?s3 = "?s2\<lparr>hosts := hosts ?s2 @ [\<lparr>host_pluginId = ?pid, killed = False\<rparr>]\<rparr>"
  let ?s4 = "?s3\<lparr>plugins := setProperty ?pid (length (hosts ?s2)) (plugins ?s3)\<rparr>"
  let ?s5 = "fold (\<lambda>pluginDevice. probeDevice (pd_id pluginDevice)) ?pds ?s4"
  have r: "runPlugin plugin s = (length (hosts ?s2), ?s5)" by (simp add: runPlugin_def Let_def)
  have s2: "sameSupervisor ?s1 ?s2" by (rule fold_same) (rule invalidatePluginDevice_same)
  have s5: "sameSupervisor ?s4 ?s5" by (rule fold_same) (rule probeDevice_same)
  have h2: "hosts ?s2 = hosts ?s1" "plugins ?s2 = plugins ?s1" "timers ?s2 = timers ?s1" "now ?s2 = now ?s1"
    "datastore ?s2 = datastore ?s1"
    using s2 by (simp_all add: sameSupervisor_def)
  have h5: "hosts ?s5 = hosts ?s4" "plugins ?s5 = plugins ?s4" "timers ?s5 = timers ?s4" "now ?s5 = now ?s4"
    "datastore ?s5 = datastore ?s4"
    using s5 by (simp_all add: sameSupervisor_def)
  have p4: "plugins ?s4 = setProperty ?pid (length (hosts s)) (AList.delete ?pid (plugins s))"
    and ho4: "hosts ?s4 = hosts ?s1 @ [\<lparr>host_pluginId = ?pid, killed = False\<rparr>]"
    and o4: "timers ?s4 = timers s" "now ?s4 = now s" "datastore ?s4 = datastore s"
    and l2: "length (hosts ?s2) = length (hosts s)"
    using h2 by (simp_all add: killPlugin_frame)
  show "fst (runPlugin plugin s) = length (hosts s)" unfolding r using l2 by simp
  show "plugins (snd (runPlugin plugin s))
     = setProperty (plugin_id plugin) (length (hosts s)) (AList.delete (plugin_id plugin) (plugins s))"
    unfolding r snd_conv h5(2) by (rule p4)
  show "length (hosts (snd (runPlugin plugin s))) = Suc (length (hosts s))"
    unfolding r snd_conv h5(1) ho4 by (simp add: killPlugin_frame)
  show "timers (snd (runPlugin plugin s)) = timers s" "now (snd (runPlugin plugin s)) = now s"
    "datastore (snd (runPlugin plugin s)) = datastore s"
    unfolding r snd_conv h5 by (rule o4)+
  show "host_pluginId (hosts (snd (runPlugin plugin s)) ! q) = host_pluginId (hosts s ! q)" if "q < length (hosts s)"
    unfolding r snd_conv h5(1) ho4 using that by (simp add: nth_append killPlugin_frame)
  show "hosts (snd (runPlugin plugin s)) ! length (hosts s) = \<lparr>host_pluginId = plugin_id plugin, killed = False\<rparr>"
    unfolding r snd_conv h5(1) ho4
    using killPlugin_frame(2)[of "plugin_id plugin" s] by (simp add: nth_append)
qed

definition replaced :: "nat \<Rightarrow> string \<Rightarrow> ScryptedRuntime \<Rightarrow> bool" where
  "replaced r pid s = (r < length (hosts s) \<and> host_pluginId (hosts s ! r) = pid \<and> map_of (plugins s) pid \<noteq> Some r)"

lemma map_of_delete_ne: "map_of al pid \<noteq> Some r \<Longrightarrow> map_of (AList.delete q al) pid \<noteq> Some r"
  by (simp add: AList.delete_conv)

lemma replaced_runPlugin_any:
  assumes "replaced r pid s" shows "replaced r pid (snd (runPlugin plugin s))"
  using assms unfolding replaced_def
  by (auto simp: runPlugin_frame setProperty_map_of map_of_delete_ne)

lemma replaced_runPlugin:
  assumes "r < length (hosts s)" "host_pluginId (hosts s ! r) = plugin_id plugin"
  shows "replaced r (plugin_id plugin) (snd (runPlugin plugin s))"
  using assms unfolding replaced_def
  by (auto simp: runPlugin_frame setProperty_map_of)

lemma restartCallback_cases:
  "restartCallback r s = snd (runPlugin plugin s)
   \<or> restartCallback r s = s\<lparr>events := events s @ [Console (ConsoleLog ''scheduled plugin restart cancelled, plugin was restarted by user'')]\<rparr>
   \<or> restartCallback r s = s\<lparr>events := events s @ [Console (ConsoleLog ''scheduled plugin restart cancelled, plugin no longer exists'')]\<rparr>
   \<or> (\<exists>p. restartCallback r s = snd (runPlugin p s))"
  by (auto simp: restartCallback_def Let_def split: option.splits)

lemma replaced_events: "replaced r pid (s\<lparr>events := e\<rparr>) = replaced r pid s"
  by (simp add: replaced_def)

lemma replaced_step:
  assumes "replaced r pid s" shows "replaced r pid (step a s)"
proof (cases a)
  case (WorkerExit q)
  with assms show ?thesis
    by (auto simp: replaced_def workerExit_def Let_def killHost_frame)
next
  case (Advance ms)
  with assms show ?thesis by (simp add: replaced_def)
next
  case (Fire k)
  let ?s0 = "s\<lparr>timers := take k (timers s) @ drop (Suc k) (timers s)\<rparr>"
  have r0: "replaced r pid ?s0" using assms by (simp add: replaced_def)
  have "replaced r pid (restartCallback q ?s0)" for q
    using restartCallback_cases[of q ?s0 undefined] r0
    by (auto simp: replaced_events intro: replaced_runPlugin_any)
  with assms Fire show ?thesis by simp
next
  case (RunPlugin plugin)
  with assms show ?thesis by (simp add: replaced_runPlugin_any)
next
  case (KillPlugin q)
  with assms show ?thesis by (auto simp: replaced_def killPlugin_frame map_of_delete_ne)
next
  case (PutPlugin plugin)
  with assms show ?thesis by (simp add: replaced_def)
next
  case (RemovePlugin q)
  with assms show ?thesis by (simp add: replaced_def)
qed

lemma replaced_run: "replaced r pid s \<Longrightarrow> replaced r pid (run acts s)"
  by (induction acts arbitrary: s) (auto simp: replaced_step)

lemma replaced_callback:
  "replaced r pid s \<Longrightarrow> restartCallback r s
     = s\<lparr>events := events s @ [Console (ConsoleLog ''scheduled plugin restart cancelled, plugin was restarted by user'')]\<rparr>"
  by (simp add: replaced_def restartCallback_def)

lemma workerExit_unexpected:
  assumes "r < length (hosts s)" "\<not> killed (hosts s ! r)"
  shows "timers (workerExit r s) = timers s @ [(now s + 60000, r)]"
    "killed (hosts (workerExit r s) ! r)" "plugins (workerExit r s) = plugins s"
    "datastore (workerExit r s) = datastore s" "now (workerExit r s) = now s"
    "length (hosts (workerExit r s)) = length (hosts s)"
    "host_pluginId (hosts (workerExit r s) ! q) = host_pluginId (hosts s ! q)"
  using assms by (simp_all add: workerExit_def Let_def killHost_frame)

lemma restart_after_cooldown:
  assumes "r < length (hosts s)" "\<not> killed (hosts s ! r)"
    "map_of (plugins s) (plugin_id plugin) = Some r" "host_pluginId (hosts s ! r) = plugin_id plugin"
    "map_of (pluginRecords (datastore s)) (plugin_id plugin) = Some plugin"
  shows "map_of (plugins (run [WorkerExit r, Advance 60000, Fire (length (timers s))] s)) (plugin_id plugin)
           = Some (length (hosts s))
       \<and> \<not> killed (hosts (run [WorkerExit r, Advance 60000, Fire (length (timers s))] s) ! length (hosts s))
       \<and> timers (run [WorkerExit r, Advance 60000, Fire (length (timers s))] s) = timers s"
proof -
  let ?s1 = "workerExit r s"
  let ?s2 = "?s1\<lparr>now := now ?s1 + 60000\<rparr>"
  let ?s3 = "?s2\<lparr>timers := take (length (timers s)) (timers ?s2) @ drop (Suc (length (timers s))) (timers ?s2)\<rparr>"
  note w = workerExit_unexpected[OF assms(1,2)]
  have fire: "step (Fire (length (timers s))) ?s2 = restartCallback r ?s3"
    by (simp add: w)
  have "restartCallback r ?s3 = snd (runPlugin plugin ?s3)"
    using assms(3,4,5) by (simp add: restartCallback_def w)
  with fire have fin: "run [WorkerExit r, Advance 60000, Fire (length (timers s))] s = snd (runPlugin plugin ?s3)"
    by simp
  have l3: "length (hosts ?s3) = length (hosts s)" "timers ?s3 = timers s" by (simp_all add: w)
  show ?thesis
    unfolding fin using l3 runPlugin_frame(8)[of plugin ?s3]
    by (simp add: runPlugin_frame(2,4) setProperty_map_of)
qed

text \<open>
  C4. When a worker exits that nobody killed, its host is marked dead and a restart is
  scheduled for 60000 ms later; after an explicit kill nothing is scheduled. A timer
  does not fire before it is due. When it fires, the plugin is run again if the handle
  registered under the plugin id is still the host that exited and the Plugin record is
  in the store; otherwise nothing happens but a line on the console. If nothing else
  intervenes the plugin is live again, on a fresh host, once the cooldown is over. After
  a manual restart of the plugin, whatever happens next, the callback scheduled for the
  old host abandons the restart.
\<close>

theorem autoRestart_policy:
  "(r < length (hosts s) \<and> \<not> killed (hosts s ! r) \<longrightarrow>
      timers (workerExit r s) = timers s @ [(now s + 60000, r)]
      \<and> killed (hosts (workerExit r s) ! r) \<and> plugins (workerExit r s) = plugins s)
   \<and> (killed (hosts s ! r) \<longrightarrow> workerExit r s = s)
   \<and> (k < length (timers s) \<and> now s < fst (timers s ! k) \<longrightarrow> step (Fire k) s = s)
   \<and> (map_of (plugins s) (host_pluginId (hosts s ! r)) = Some r
        \<and> map_of (pluginRecords (datastore s)) (host_pluginId (hosts s ! r)) = Some plugin
      \<longrightarrow> restartCallback r s = snd (runPlugin plugin s))
   \<and> (map_of (plugins s) (host_pluginId (hosts s ! r)) \<noteq> Some r
      \<longrightarrow> restartCallback r s = s\<lparr>events := events s @
            [Console (ConsoleLog ''scheduled plugin restart cancelled, plugin was restarted by user'')]\<rparr>)
   \<and> (map_of (plugins s) (host_pluginId (hosts s ! r)) = Some r
        \<and> map_of (pluginRecords (datastore s)) (host_pluginId (hosts s ! r)) = None
      \<longrightarrow> restartCallback r s = s\<lparr>events := events s @
            [Console (ConsoleLog ''scheduled plugin restart cancelled, plugin no longer exists'')]\<rparr>)
   \<and> (r < length (hosts s) \<and> \<not> killed (hosts s ! r)
        \<and> map_of (plugins s) (plugin_id plugin) = Some r \<and> host_pluginId (hosts s ! r) = plugin_id plugin
        \<and> map_of (pluginRecords (datastore s)) (plugin_id plugin) = Some plugin
      \<longrightarrow> map_of (plugins (run [WorkerExit r, Advance 60000, Fire (length (timers s))] s)) (plugin_id plugin)
             = Some (length (hosts s))
          \<and> \<not> killed (hosts (run [WorkerExit r, Advance 60000, Fire (length (timers s))] s) ! length (hosts s)))
   \<and> (r < length (hosts s) \<and> host_pluginId (hosts s ! r) = plugin_id plugin
      \<longrightarrow> (\<forall>acts. restartCallback r (run acts (snd (runPlugin plugin s)))
             = (run acts (snd (runPlugin plugin s)))\<lparr>events := events (run acts (snd (runPlugin plugin s))) @
                 [Console (ConsoleLog ''scheduled plugin restart cancelled, plugin was restarted by user'')]\<rparr>))"
proof (intro conjI impI allI)
  assume "r < length (hosts s) \<and> \<not> killed (hosts s ! r)"
  then show "timers (workerExit r s) = timers s @ [(now s + 60000, r)]"
    "killed (hosts (workerExit r s) ! r)" "plugins (workerExit r s) = plugins s"
    using workerExit_unexpected by simp_all
next
  assume "killed (hosts s ! r)"
  then show "workerExit r s = s" by (simp add: workerExit_def)
next
  assume "k < length (timers s) \<and> now s < fst (timers s ! k)"
  then show "step (Fire k) s = s" by simp
next
  assume "map_of (plugins s) (host_pluginId (hosts s ! r)) = Some r
        \<and> map_of (pluginRecords (datastore s)) (host_pluginId (hosts s ! r)) = Some plugin"
  then show "restartCallback r s = snd (runPlugin plugin s)" by (simp add: restartCallback_def)
next
  assume "map_of (plugins s) (host_pluginId (hosts s ! r)) \<noteq> Some r"
  then show "restartCallback r s = s\<lparr>events := events s @
            [Console (ConsoleLog ''scheduled plugin restart cancelled, plugin was restarted by user'')]\<rparr>"
    by (simp add: restartCallback_def)
next
  assume "map_of (plugins s) (host_pluginId (hosts s ! r)) = Some r
        \<and> map_of (pluginRecords (datastore s)) (host_pluginId (hosts s ! r)) = None"
  then show "restartCallback r s = s\<lparr>events := events s @
            [Console (ConsoleLog ''scheduled plugin restart cancelled, plugin no longer exists'')]\<rparr>"
    by (simp add: restartCallback_def)
next
  assume a: "r < length (hosts s) \<and> \<not> killed (hosts s ! r)
        \<and> map_of (plugins s) (plugin_id plugin) = Some r \<and> host_pluginId (hosts s ! r) = plugin_id plugin
        \<and> map_of (pluginRecords (datastore s)) (plugin_id plugin) = Some plugin"
  then have "map_of (plugins (run [WorkerExit r, Advance 60000, Fire (length (timers s))] s)) (plugin_id plugin)
           = Some (length (hosts s))
       \<and> \<not> killed (hosts (run [WorkerExit r, Advance 60000, Fire (length (timers s))] s) ! length (hosts s))
       \<and> timers (run [WorkerExit r, Advance 60000, Fire (length (timers s))] s) = timers s"
    by (intro restart_after_cooldown) simp_all
  then show "map_of (plugins (run [WorkerExit r, Advance 60000, Fire (length (timers s))] s)) (plugin_id plugin)
             = Some (length (hosts s))"
    "\<not> killed (hosts (run [WorkerExit r, Advance 60000, Fire (length (timers s))] s) ! length (hosts s))"
    by simp_all
next
  fix acts
  assume "r < length (hosts s) \<and> host_pluginId (hosts s ! r) = plugin_id plugin"
  then have "replaced r (plugin_id plugin) (snd (runPlugin plugin s))" by (simp add: replaced_runPlugin)
  then have "replaced r (plugin_id plugin) (run acts (snd (runPlugin plugin s)))" by (rule replaced_run)
  then show "restartCallback r (run acts (snd (runPlugin plugin s)))
             = (run acts (snd (runPlugin plugin s)))\<lparr>events := events (run acts (snd (runPlugin plugin s))) @
                 [Console (ConsoleLog ''scheduled plugin restart cancelled, plugin was restarted by user'')]\<rparr>"
    by (rule replaced_callback)
qed

lemmas sup_defs = setProperty_def run.simps step.simps workerExit_def killHost_def restartCallback_def runPlugin_def killPlugin_def
  findPluginDevices_def invalidatePluginDevice_def probeDevice_def getDevice_def
  runningRuntime_def cameraRuntime_def emptyRuntime_def cameraPlugin_def cameraDevice_def Let_def

theorem autoRestart_policy_witness:
  "timers (workerExit 0 runningRuntime) = [(61000, 0)]
   \<and> map_of (plugins (run [WorkerExit 0, Advance 60000, Fire 0] runningRuntime)) ''p'' = Some 1
   \<and> \<not> killed (hosts (run [WorkerExit 0, Advance 60000, Fire 0] runningRuntime) ! 1)
   \<and> step (Fire 0) (run [WorkerExit 0, Advance 59999] runningRuntime)
        = run [WorkerExit 0, Advance 59999] runningRuntime
   \<and> restartCallback 0 (run [Advance 60000] (snd (runPlugin cameraPlugin (workerExit 0 runningRuntime))))
        = (run [Advance 60000] (snd (runPlugin cameraPlugin (workerExit 0 runningRuntime))))
            \<lparr>events := events (run [Advance 60000] (snd (runPlugin cameraPlugin (workerExit 0 runningRuntime)))) @
               [Console (ConsoleLog ''scheduled plugin restart cancelled, plugin was restarted by user'')]\<rparr>
   \<and> plugins (run [WorkerExit 0, RunPlugin cameraPlugin, Advance 60000, Fire 0] runningRuntime) = [(''p'', 1)]
   \<and> map killed (hosts (run [WorkerExit 0, RunPlugin cameraPlugin, Advance 60000, Fire 0] runningRuntime))
        = [True, False]"
proof -
  have h: "0 < length (hosts runningRuntime) \<and> \<not> killed (hosts runningRuntime ! 0)"
    "0 < length (hosts runningRuntime) \<and> \<not> killed (hosts runningRuntime ! 0)
        \<and> map_of (plugins runningRuntime) (plugin_id cameraPlugin) = Some 0
        \<and> host_pluginId (hosts runningRuntime ! 0) = plugin_id cameraPlugin
        \<and> map_of (pluginRecords (datastore runningRuntime)) (plugin_id cameraPlugin) = Some cameraPlugin"
    and v: "timers runningRuntime = []" "now runningRuntime = 1000" "length (hosts runningRuntime) = 1"
    "plugin_id cameraPlugin = ''p''"
    by (simp_all add: runningRuntime_def cameraRuntime_def emptyRuntime_def cameraPlugin_def)
  note T = autoRestart_policy[of 0 runningRuntime 0 cameraPlugin]
  from T h(1) have "timers (workerExit 0 runningRuntime) = timers runningRuntime @ [(now runningRuntime + 60000, 0)]"
    by blast
  then have a1: "timers (workerExit 0 runningRuntime) = [(61000, 0)]" by (simp add: v)
  from T h(2) have "map_of (plugins (run [WorkerExit 0, Advance 60000, Fire (length (timers runningRuntime))] runningRuntime)) (plugin_id cameraPlugin)
             = Some (length (hosts runningRuntime))
          \<and> \<not> killed (hosts (run [WorkerExit 0, Advance 60000, Fire (length (timers runningRuntime))] runningRuntime) ! length (hosts runningRuntime))"
    by blast
  then have a2: "map_of (plugins (run [WorkerExit 0, Advance 60000, Fire 0] runningRuntime)) ''p'' = Some 1"
    "\<not> killed (hosts (run [WorkerExit 0, Advance 60000, Fire 0] runningRuntime) ! 1)"
    unfolding v by simp_all
  note a = a1 a2
  let ?s = "run [WorkerExit 0, Advance 59999] runningRuntime"
  have "0 < length (timers ?s) \<and> now ?s < fst (timers ?s ! 0)" by (simp add: sup_defs)
  with autoRestart_policy[of 0 ?s 0 cameraPlugin] have b: "step (Fire 0) ?s = ?s" by blast
  let ?w = "workerExit 0 runningRuntime"
  have "0 < length (hosts ?w) \<and> host_pluginId (hosts ?w ! 0) = plugin_id cameraPlugin"
    by (simp add: sup_defs)
  with autoRestart_policy[of 0 ?w 0 cameraPlugin]
  have c: "restartCallback 0 (run [Advance 60000] (snd (runPlugin cameraPlugin ?w)))
        = (run [Advance 60000] (snd (runPlugin cameraPlugin ?w)))
            \<lparr>events := events (run [Advance 60000] (snd (runPlugin cameraPlugin ?w))) @
               [Console (ConsoleLog ''scheduled plugin restart cancelled, plugin was restarted by user'')]\<rparr>"
    by blast
  have d: "plugins (run [WorkerExit 0, RunPlugin cameraPlugin, Advance 60000, Fire 0] runningRuntime) = [(''p'', 1)]"
    "map killed (hosts (run [WorkerExit 0, RunPlugin cameraPlugin, Advance 60000, Fire 0] runningRuntime))
        = [True, False]"
    by (simp_all add: sup_defs)
  from a b c d show ?thesis by (intro conjI)
qed

section \<open>Removing devices\<close>

subsection \<open>What one removal changes\<close>

text \<open>The steps of \<open>removeSelf\<close> before and after the mixins are invalidated.\<close>

definition unregistered :: "PluginDevice \<Rightarrow> ScryptedRuntime \<Rightarrow> ScryptedRuntime" where
  "unregistered device s =
     (let s1 = invalidatePluginDevice (pd_id device) s
      in s1\<lparr>pluginDevices := AList.delete (pd_id device) (pluginDevices s1),
            datastore := (datastore s1)\<lparr>deviceRecords := AList.delete (pd_id device) (deviceRecords (datastore s1))\<rparr>,
            events := events s1 @ [StateManagerRemoveDevice (pd_id device)]\<rparr>)"

definition settled :: "(string \<Rightarrow> bool) \<Rightarrow> PluginDevice \<Rightarrow> ScryptedRuntime \<Rightarrow> ScryptedRuntime" where
  "settled reachable device s =
     (if falsy (nativeId device) then removePluginOf device s
      else notifyRemoved reachable device (the (nativeId device)) s)"

lemma removeSelf_steps:
  "removeSelf reachable device s =
     (case fst (invalidateMixins [pd_id device] (unregistered device s)) of
        Inl e \<Rightarrow> (Some e, snd (invalidateMixins [pd_id device] (unregistered device s)))
      | Inr ret \<Rightarrow> (None, settled reachable device (snd (invalidateMixins [pd_id device] (unregistered device s)))))"
  by (auto simp: removeSelf_def unregistered_def settled_def Let_def split_def falsy_def
      split: sum.splits option.splits)

lemma rebuildMixinTables_same:
  "sameSupervisor s (snd (rebuildMixinTables ret s)) \<and> devices (snd (rebuildMixinTables ret s)) = devices s"
proof (induction ret arbitrary: s)
  case Nil
  show ?case by (simp add: sameSupervisor_def)
next
  case (Cons i ret)
  show ?case
  proof (cases "map_of (devices s) i")
    case None
    then show ?thesis by (simp add: sameSupervisor_def)
  next
    case (Some h)
    from Cons[of "s\<lparr>events := events s @ [RebuildMixinTable (handler_id h)]\<rparr>"] Some
    show ?thesis by (simp add: sameSupervisor_def)
  qed
qed

lemma invalidateMixins_same: "sameSupervisor s (snd (invalidateMixins ids s))"
proof -
  obtain ds ret remaining evs where p: "propagation ids s = (ds, ret, remaining, evs)"
    by (cases "propagation ids s") auto
  from rebuildMixinTables_same[of "s\<lparr>devices := ds, events := evs\<rparr>" ret]
  show ?thesis unfolding invalidateMixins_def p by (simp add: split_def Let_def sameSupervisor_def)
qed

lemma unregistered_frame:
  "pluginDevices (unregistered device s) = AList.delete (pd_id device) (pluginDevices s)"
  "deviceRecords (datastore (unregistered device s)) = AList.delete (pd_id device) (deviceRecords (datastore s))"
  "pluginRecords (datastore (unregistered device s)) = pluginRecords (datastore s)"
  "idCounter (datastore (unregistered device s)) = idCounter (datastore s)"
  "plugins (unregistered device s) = plugins s" "hosts (unregistered device s) = hosts s"
  "volumes (unregistered device s) = volumes s" "timers (unregistered device s) = timers s"
  "now (unregistered device s) = now s"
  "devices (unregistered device s) = devices (invalidatePluginDevice (pd_id device) s)"
  "events (unregistered device s) = events (invalidatePluginDevice (pd_id device) s) @ [StateManagerRemoveDevice (pd_id device)]"
  using invalidatePluginDevice_same[of s "pd_id device"]
  by (simp_all add: unregistered_def Let_def sameSupervisor_def)

lemma settled_frame:
  "pluginDevices (settled reachable device s) = pluginDevices s"
  "deviceRecords (datastore (settled reachable device s)) = deviceRecords (datastore s)"
  "idCounter (datastore (settled reachable device s)) = idCounter (datastore s)"
  "devices (settled reachable device s) = devices s"
  "timers (settled reachable device s) = timers s" "now (settled reachable device s) = now s"
  by (simp_all add: settled_def removePluginOf_def notifyRemoved_def Let_def killPlugin_def killHost_def
      split: option.splits)

lemma removeSelf_table:
  "pluginDevices (snd (removeSelf reachable device s)) = AList.delete (pd_id device) (pluginDevices s)"
  using invalidateMixins_same[of "unregistered device s" "[pd_id device]"]
  unfolding removeSelf_steps
  by (simp add: sameSupervisor_def settled_frame unregistered_frame split: sum.splits)

subsection \<open>The recursion ends\<close>

lemma descendants_iff: "(c \<in> descendants s i) = ((c, i) \<in> (set (providerEdges s))\<^sup>+)"
  by (force simp: descendants_def)

lemma providerEdges_iff:
  "((c, p) \<in> set (providerEdges s))
     = (\<exists>k pd. (k, pd) \<in> set (pluginDevices s) \<and> pd_id pd = c \<and> getState pd P_providerId = VStr p \<and> c \<noteq> p)"
  by (force simp: providerEdges_def split: val.splits if_splits)

lemma child_descendants:
  assumes "acyclic (set (providerEdges s))" "(c, p) \<in> set (providerEdges s)"
  shows "descendants s c \<subset> descendants s p"
proof -
  let ?r = "set (providerEdges s)"
  have "descendants s c \<subseteq> descendants s p"
    using assms(2) by (auto simp: descendants_iff intro: trancl_into_trancl)
  moreover have "c \<in> descendants s p" using assms(2) by (auto simp: descendants_iff)
  moreover have "c \<notin> descendants s c" using assms(1) by (auto simp: descendants_iff acyclic_def)
  ultimately show ?thesis by blast
qed

lemma descendants_edges: "descendants s i \<subseteq> fst ` set (providerEdges s)"
proof
  fix x assume "x \<in> descendants s i"
  then obtain z where "(x, z) \<in> set (providerEdges s)" unfolding descendants_iff by (meson tranclD)
  then show "x \<in> fst ` set (providerEdges s)" by force
qed

lemma descendants_finite: "finite (descendants s i)"
  using descendants_edges by (rule finite_subset) simp

lemma descendants_card: "card (descendants s i) \<le> length (pluginDevices s)"
proof -
  have "fst ` set (providerEdges s) \<subseteq> (\<lambda>x. pd_id (snd x)) ` set (pluginDevices s)"
    by (force simp: providerEdges_iff)
  with descendants_edges[of s i] have "card (descendants s i) \<le> card ((\<lambda>x. pd_id (snd x)) ` set (pluginDevices s))"
    by (intro card_mono) simp_all
  also have "\<dots> \<le> card (set (pluginDevices s))" by (intro card_image_le) simp
  also have "\<dots> \<le> length (pluginDevices s)" by (rule card_length)
  finally show ?thesis .
qed

lemma set_delete_subset: "set (AList.delete k al) \<subseteq> set al"
  by (auto simp: AList.delete_eq)

lemma removeDevice_returns:
  assumes ac: "acyclic (set (providerEdges s0))"
  shows "set (pluginDevices s) \<subseteq> set (pluginDevices s0) \<Longrightarrow> card (descendants s0 (pd_id device)) < fuel
     \<Longrightarrow> \<exists>res s'. removeDevice reachable fuel device s = Some (res, s')
            \<and> set (pluginDevices s') \<subseteq> set (pluginDevices s0)"
proof (induction fuel arbitrary: device s)
  case 0
  then show ?case by simp
next
  case (Suc fuel)
  let ?cs = "filter (\<lambda>pluginDevice. getState pluginDevice P_providerId = VStr (pd_id device)) (map snd (pluginDevices s))"
  let ?f = "\<lambda>provided acc. case acc of
                   Some (None, s') \<Rightarrow>
                     if pd_id provided = pd_id device then Some (None, s')
                     else removeDevice reachable fuel provided s'
                 | other \<Rightarrow> other"
  have loop: "\<exists>res s'. fold ?f cs (Some (r0, s1)) = Some (res, s') \<and> set (pluginDevices s') \<subseteq> set (pluginDevices s0)"
    if "set cs \<subseteq> set ?cs" "set (pluginDevices s1) \<subseteq> set (pluginDevices s0)" for cs r0 s1
    using that
  proof (induction cs arbitrary: r0 s1)
    case Nil
    then show ?case by simp
  next
    case (Cons c cs)
    from Cons.prems(1) have cs: "set cs \<subseteq> set ?cs" and c: "c \<in> set ?cs" by auto
    show ?case
    proof (cases "r0 = None \<and> pd_id c \<noteq> pd_id device")
      case False
      then have "?f c (Some (r0, s1)) = Some (r0, s1)" by (cases r0) auto
      with Cons.IH[OF cs Cons.prems(2), of r0] show ?thesis by simp
    next
      case True
      from c obtain k where "(k, c) \<in> set (pluginDevices s)" "getState c P_providerId = VStr (pd_id device)"
        by auto
      with Suc.prems(1) True have "(pd_id c, pd_id device) \<in> set (providerEdges s0)"
        unfolding providerEdges_iff by blast
      from child_descendants[OF ac this] have "card (descendants s0 (pd_id c)) < card (descendants s0 (pd_id device))"
        by (intro psubset_card_mono descendants_finite)
      with Suc.prems(2) have "card (descendants s0 (pd_id c)) < fuel" by simp
      from Suc.IH[OF Cons.prems(2) this] obtain res s' where
        r: "removeDevice reachable fuel c s1 = Some (res, s')" "set (pluginDevices s') \<subseteq> set (pluginDevices s0)"
        by blast
      from True r(1) have "?f c (Some (r0, s1)) = Some (res, s')" by simp
      with Cons.IH[OF cs r(2), of res] show ?thesis by simp
    qed
  qed
  from loop[OF subset_refl Suc.prems(1), of None] obtain res s1 where
    l: "fold ?f ?cs (Some (None, s)) = Some (res, s1)" "set (pluginDevices s1) \<subseteq> set (pluginDevices s0)"
    by blast
  show ?case
  proof (cases res)
    case None
    have "removeDevice reachable (Suc fuel) device s = Some (removeSelf reachable device s1)"
      using l(1) None by (simp add: Let_def)
    moreover have "set (pluginDevices (snd (removeSelf reachable device s1))) \<subseteq> set (pluginDevices s0)"
      unfolding removeSelf_table using l(2) set_delete_subset by fast
    ultimately show ?thesis by (metis prod.collapse)
  next
    case (Some e)
    have "removeDevice reachable (Suc fuel) device s = Some (Some e, s1)"
      using l(1) Some by (simp add: Let_def)
    with l(2) show ?thesis by blast
  qed
qed

text \<open>
  C10. On a table whose provider relation has no cycle apart from the self-loops that
  the loop skips, a call of removeDevice returns: the recursion is never deeper than
  the table is long, so any bound above the length of the table is enough. (The
  provider edges leave out the self-loops; a device that is its own provider, as every
  plugin-root device is, is in the table of the witness.)
\<close>

theorem removeDevice_terminates:
  assumes "acyclic (set (providerEdges s))" "length (pluginDevices s) < fuel"
  shows "removeDevice reachable fuel device s \<noteq> None"
proof -
  from descendants_card[of s "pd_id device"] assms(2) have "card (descendants s (pd_id device)) < fuel" by simp
  from removeDevice_returns[OF assms(1) subset_refl this, of reachable] show ?thesis by auto
qed

theorem removeDevice_terminates_witness:
  "acyclic (set (providerEdges homeRuntime)) \<and> length (pluginDevices homeRuntime) < 5
   \<and> getState rootDevice P_providerId = VStr (pd_id rootDevice)
   \<and> removeDevice (\<lambda>pid. False) 5 rootDevice homeRuntime \<noteq> None"
proof -
  have a: "acyclic (set (providerEdges homeRuntime))" by code_simp
  have b: "length (pluginDevices homeRuntime) < 5" by code_simp
  have c: "getState rootDevice P_providerId = VStr (pd_id rootDevice)" by code_simp
  from removeDevice_terminates[OF a b] have d: "removeDevice (\<lambda>pid. False) 5 rootDevice homeRuntime \<noteq> None" .
  show ?thesis by (intro conjI a b c d)
qed

text \<open>
  Without the hypothesis the call need not return: on two devices that provide each
  other, no bound is enough.
\<close>

lemma removeDevice_cycle:
  "removeDevice reachable fuel (providedDevice ''1'' ''p'' (Some ''a'') ''2'') loopRuntime = None
   \<and> removeDevice reachable fuel (providedDevice ''2'' ''p'' (Some ''b'') ''1'') loopRuntime = None"
proof (induction fuel)
  case 0
  show ?case by simp
next
  case (Suc fuel)
  have s1: "filter (\<lambda>pluginDevice. getState pluginDevice P_providerId = VStr (pd_id (providedDevice ''1'' ''p'' (Some ''a'') ''2'')))
              (map snd (pluginDevices loopRuntime)) = [providedDevice ''2'' ''p'' (Some ''b'') ''1'']"
    and s2: "filter (\<lambda>pluginDevice. getState pluginDevice P_providerId = VStr (pd_id (providedDevice ''2'' ''p'' (Some ''b'') ''1'')))
              (map snd (pluginDevices loopRuntime)) = [providedDevice ''1'' ''p'' (Some ''a'') ''2'']"
    by (simp_all add: loopRuntime_def providedDevice_def getState_def)
  have ne: "pd_id (providedDevice ''2'' ''p'' (Some ''b'') ''1'') \<noteq> pd_id (providedDevice ''1'' ''p'' (Some ''a'') ''2'')"
    by (simp add: providedDevice_def)
  from Suc ne show ?case
    unfolding removeDevice.simps Let_def s1 s2 by (simp add: eq_commute[of "pd_id (providedDevice ''1'' ''p'' (Some ''a'') ''2'')"])
qed

subsection \<open>The proxies during a removal\<close>




text \<open>What a proxy table may become during a removal: chains get shorter or go.\<close>

definition shortened :: "PluginDeviceProxyHandler \<Rightarrow> PluginDeviceProxyHandler \<Rightarrow> bool" where
  "shortened h h' = (handler_id h' = handler_id h \<and> (\<exists>n. chain h' = drop n (chain h)))"

lemma shortened_refl: "shortened h h"
  unfolding shortened_def by (metis drop_0)

lemma shortened_trans: "shortened a b \<Longrightarrow> shortened b c \<Longrightarrow> shortened a c"
  unfolding shortened_def by (metis drop_drop)




subsection \<open>One removal, in terms of the state before the cascade\<close>




















subsection \<open>The provider relation of a table keyed by id\<close>









subsection \<open>The cascade\<close>









subsection \<open>A call of removeDevice\<close>







section \<open>Startup: the marker and the mixin cycles\<close>

lemma getProvidedInterfaces_setState:
  "getProvidedInterfaces (snd (setState pd p v))
     = (if p = P_providedInterfaces \<and> state pd \<noteq> None then (case v of VStrings xs \<Rightarrow> xs | _ \<Rightarrow> [])
        else getProvidedInterfaces pd)"
  by (auto simp: getProvidedInterfaces_def getState_setState')

lemma getMixins_setState:
  "getMixins (snd (setState pd p v))
     = (if p = P_mixins \<and> state pd \<noteq> None then (case v of VMixins ms \<Rightarrow> ms | _ \<Rightarrow> [])
        else getMixins pd)"
  by (auto simp: getMixins_def getState_setState')

lemma loadDevice_table:
  assumes "loadDevice pd s = Inr s'"
  shows "pluginDevices s' = pluginDevices s
       \<or> (\<exists>pd4. pluginDevices s' = setProperty (pd_id pd) pd4 (pluginDevices s)
              \<and> pd_id pd4 = pd_id pd \<and> nativeId pd4 = nativeId pd
              \<and> (falsy (nativeId pd) \<longrightarrow> ScryptedPlugin \<in> set (getProvidedInterfaces pd4)))"
proof (cases "state pd")
  case None
  with assms show ?thesis by (auto simp: loadDevice_def)
next
  case (Some st)
  define pd1 where "pd1 = (if None \<in> set (getMixins pd)
                     then snd (setState pd P_mixins (VMixins (filter (\<lambda>e. \<not> falsy e) (getMixins pd))))
                     else pd)"
  define pd2 where "pd2 = (if falsy (nativeId pd1) \<and> ScryptedPlugin \<notin> set (getProvidedInterfaces pd1)
                          then snd (setState pd1 P_providedInterfaces
                                      (VStrings (sortInterfaces (getProvidedInterfaces pd1 @ [ScryptedPlugin]))))
                          else pd1)"
  define pd3 where "pd3 = (if getState pd2 P_pluginId = VUndefined \<or> getState pd2 P_pluginId = VStr []
       then snd (setState pd2 P_pluginId (VStr (pluginId pd2))) else pd2)"
  define pd4 where "pd4 = (if getState pd3 P_nativeId \<noteq> optStr (nativeId pd3)
       then snd (setState pd3 P_nativeId (optStr (nativeId pd3))) else pd3)"
  have f1: "pd_id pd1 = pd_id pd" "nativeId pd1 = nativeId pd" "state pd1 \<noteq> None"
    using Some by (simp_all add: pd1_def setState_fields del: not_None_eq)
  have f2: "pd_id pd2 = pd_id pd" "nativeId pd2 = nativeId pd" "state pd2 \<noteq> None"
    "falsy (nativeId pd) \<longrightarrow> ScryptedPlugin \<in> set (getProvidedInterfaces pd2)"
    using f1 by (simp_all add: pd2_def setState_fields getProvidedInterfaces_setState sortInterfaces_set del: not_None_eq)
  have f3: "pd_id pd3 = pd_id pd" "nativeId pd3 = nativeId pd" "state pd3 \<noteq> None"
    "falsy (nativeId pd) \<longrightarrow> ScryptedPlugin \<in> set (getProvidedInterfaces pd3)"
    using f2 by (simp_all add: pd3_def setState_fields getProvidedInterfaces_setState del: not_None_eq)
  have f4: "pd_id pd4 = pd_id pd" "nativeId pd4 = nativeId pd" "state pd4 \<noteq> None"
    "falsy (nativeId pd) \<longrightarrow> ScryptedPlugin \<in> set (getProvidedInterfaces pd4)"
    using f3 by (simp_all add: pd4_def setState_fields getProvidedInterfaces_setState del: not_None_eq)
  have le: "loadDevice pd s =
     (if falsy (nativeId pd1) \<and> (case getState pd1 P_providedInterfaces of VStrings xs \<Rightarrow> False | _ \<Rightarrow> True)
      then Inl (TypeError ''interfaces.includes is not a function'')
      else Inr (if None \<in> set (getMixins pd)
                   \<or> (falsy (nativeId pd1) \<and> ScryptedPlugin \<notin> set (getProvidedInterfaces pd1))
                   \<or> (getState pd2 P_pluginId = VUndefined \<or> getState pd2 P_pluginId = VStr [])
                   \<or> getState pd3 P_nativeId \<noteq> optStr (nativeId pd3)
                then (storeDevice pd4 s)\<lparr>datastore := (datastore (storeDevice pd4 s))\<lparr>deviceRecords :=
                                 AList.update (pd_id pd4) pd4 (deviceRecords (datastore (storeDevice pd4 s)))\<rparr>\<rparr>
                else storeDevice pd4 s))"
    unfolding loadDevice_def Let_def pd4_def pd3_def pd2_def pd1_def Some option.case by (rule refl)
  have "pluginDevices s' = pluginDevices (storeDevice pd4 s)"
    using assms unfolding le by (auto split: if_splits)
  then have "pluginDevices s' = setProperty (pd_id pd4) pd4 (pluginDevices s)"
    by (simp add: storeDevice_def)
  with f4 show ?thesis by auto
qed

lemma falsy_None: "falsy None"
  by (simp add: falsy_def)

lemma rootsMarked_update:
  assumes "rootsMarked s" "pluginDevices s' = setProperty k pd (pluginDevices s)"
    "nativeId pd = None \<longrightarrow> ScryptedPlugin \<in> set (getProvidedInterfaces pd)"
  shows "rootsMarked s'"
  using assms setProperty_subset[of k pd "pluginDevices s"] unfolding rootsMarked_def by fastforce

lemma wfTable_update:
  assumes "wfTable s" "pluginDevices s' = setProperty (pd_id pd) pd (pluginDevices s)"
  shows "wfTable s'"
  using assms setProperty_subset[of "pd_id pd" pd "pluginDevices s"]
  unfolding wfTable_def by (auto simp: setProperty_distinct)

lemma loadDevice_keeps:
  assumes "loadDevice pd s = Inr s'"
  shows "rootsMarked s \<Longrightarrow> rootsMarked s'" "wfTable s \<Longrightarrow> wfTable s'"
proof -
  from loadDevice_table[OF assms] consider "pluginDevices s' = pluginDevices s"
    | pd4 where "pluginDevices s' = setProperty (pd_id pd4) pd4 (pluginDevices s)"
       "nativeId pd4 = None \<longrightarrow> ScryptedPlugin \<in> set (getProvidedInterfaces pd4)"
    using falsy_None by metis
  note c = this
  show "rootsMarked s'" if "rootsMarked s"
    using c that by cases (simp add: rootsMarked_def, rule rootsMarked_update)
  show "wfTable s'" if "wfTable s"
    using c that by cases (simp add: wfTable_def, rule wfTable_update)
qed

lemma loadDevices_keeps:
  "loadDevices pds s = Inr s' \<Longrightarrow> (rootsMarked s \<longrightarrow> rootsMarked s') \<and> (wfTable s \<longrightarrow> wfTable s')"
proof (induction pds arbitrary: s)
  case Nil
  then show ?case by simp
next
  case (Cons pd pds)
  then obtain s1 where s1: "loadDevice pd s = Inr s1" "loadDevices pds s1 = Inr s'"
    by (auto split: sum.splits)
  from loadDevice_keeps[OF s1(1)] Cons.IH[OF s1(2)] show ?case by blast
qed

subsection \<open>The second loop\<close>

lemma mixinEdges_set:
  "set (mixinEdges s) = {(k, m). k \<in> fst ` set (pluginDevices s) \<and> m \<in> set (mixinsOf s k)}"
  by (force simp: mixinEdges_def)

lemma clearMixins_keys: "fst ` set (pluginDevices (clearMixins i s)) = fst ` set (pluginDevices s)"
  by (simp add: clearMixins_def dom_map_entry)

lemma getMixins_cleared: "getMixins (snd (setState pd P_mixins (VMixins []))) = []"
  by (auto simp: getMixins_def getState_def setState_def split: option.splits)

lemma clearMixins_mixinsOf:
  "mixinsOf (clearMixins i s) k = (if k = i then [] else mixinsOf s k)"
  by (simp add: mixinsOf_def findPluginDeviceById_def clearMixins_def map_of_map_entry
      getMixins_cleared List.map_filter_simps split: option.splits)

lemma clearMixins_edges:
  "set (mixinEdges (clearMixins i s)) = {(k, m) \<in> set (mixinEdges s). k \<noteq> i}"
  unfolding mixinEdges_set clearMixins_keys clearMixins_mixinsOf by (auto split: if_splits)

lemma no_edge_no_cycle: "\<forall>m. (i, m) \<notin> E \<Longrightarrow> (i, i) \<notin> E\<^sup>+"
  by (meson tranclD)

lemma edges_mono:
  assumes "fst ` set (pluginDevices s') = fst ` set (pluginDevices s)"
    "\<And>k. mixinsOf s' k = mixinsOf s k \<or> mixinsOf s' k = []"
  shows "set (mixinEdges s') \<subseteq> set (mixinEdges s)"
proof
  fix e assume e: "e \<in> set (mixinEdges s')"
  obtain k m where km: "e = (k, m)" by (cases e)
  from e have "k \<in> fst ` set (pluginDevices s)" "m \<in> set (mixinsOf s' k)"
    unfolding km mixinEdges_set assms(1) by auto
  moreover from this(2) assms(2)[of k] have "m \<in> set (mixinsOf s k)" by auto
  ultimately show "e \<in> set (mixinEdges s)" unfolding km mixinEdges_set by blast
qed

lemma cycle_mono: "set (mixinEdges s') \<subseteq> set (mixinEdges s) \<Longrightarrow> hasMixinCycle s' i \<Longrightarrow> hasMixinCycle s i"
  unfolding hasMixinCycle_def using trancl_mono by blast

lemma clearMixinCycles_props:
  "fst ` set (pluginDevices (clearMixinCycles ids s)) = fst ` set (pluginDevices s)
   \<and> (\<forall>k. mixinsOf (clearMixinCycles ids s) k = mixinsOf s k
          \<or> (mixinsOf (clearMixinCycles ids s) k = [] \<and> hasMixinCycle s k))
   \<and> (\<forall>i \<in> set ids. \<not> hasMixinCycle (clearMixinCycles ids s) i)"
proof (induction ids arbitrary: s)
  case Nil
  then show ?case by simp
next
  case (Cons i ids)
  let ?s1 = "if hasMixinCycle s i then clearMixins i s else s"
  let ?s' = "clearMixinCycles ids ?s1"
  have keys1: "fst ` set (pluginDevices ?s1) = fst ` set (pluginDevices s)"
    by (simp add: clearMixins_keys)
  have mix1: "mixinsOf ?s1 k = mixinsOf s k \<or> (mixinsOf ?s1 k = [] \<and> hasMixinCycle s k)" for k
    by (simp add: clearMixins_mixinsOf)
  have sub1: "set (mixinEdges ?s1) \<subseteq> set (mixinEdges s)"
    using mix1 by (intro edges_mono keys1) blast
  have off1: "\<not> hasMixinCycle ?s1 i"
  proof (cases "hasMixinCycle s i")
    case True
    have "\<forall>m. (i, m) \<notin> set (mixinEdges (clearMixins i s))" by (simp add: clearMixins_edges)
    from no_edge_no_cycle[OF this] True show ?thesis by (simp add: hasMixinCycle_def)
  next
    case False
    then show ?thesis by simp
  qed
  from Cons.IH[of ?s1] have keys: "fst ` set (pluginDevices ?s') = fst ` set (pluginDevices ?s1)"
    and mix: "\<And>k. mixinsOf ?s' k = mixinsOf ?s1 k \<or> (mixinsOf ?s' k = [] \<and> hasMixinCycle ?s1 k)"
    and off: "\<forall>j \<in> set ids. \<not> hasMixinCycle ?s' j"
    by blast+
  have sub: "set (mixinEdges ?s') \<subseteq> set (mixinEdges ?s1)"
    using mix by (intro edges_mono keys) blast
  have "\<not> hasMixinCycle ?s' i"
    using off1 cycle_mono[OF sub] by blast
  moreover have "mixinsOf ?s' k = mixinsOf s k \<or> (mixinsOf ?s' k = [] \<and> hasMixinCycle s k)" for k
    using mix[of k] mix1[of k] cycle_mono[OF sub1, of k] by metis
  ultimately show ?case using keys keys1 off by simp
qed

lemma clearMixinCycles_acyclic:
  assumes "fst ` set (pluginDevices s) \<subseteq> set ids"
  shows "\<not> hasMixinCycle (clearMixinCycles ids s) i"
proof
  let ?s' = "clearMixinCycles ids s"
  assume c: "hasMixinCycle ?s' i"
  then obtain m where "(i, m) \<in> set (mixinEdges ?s')"
    unfolding hasMixinCycle_def by (meson tranclD)
  then have "i \<in> fst ` set (pluginDevices ?s')" unfolding mixinEdges_set by auto
  with clearMixinCycles_props[of ids s] assms have "\<not> hasMixinCycle ?s' i" by blast
  with c show False by simp
qed

lemma map_entry_entries:
  "(k, v) \<in> set (AList.map_entry i f al) \<Longrightarrow> (k, v) \<in> set al \<or> (\<exists>v0. (k, v0) \<in> set al \<and> v = f v0)"
  by (induction al) (auto split: if_splits)

lemma clearMixins_entries:
  assumes "(k, pd) \<in> set (pluginDevices (clearMixins i s))"
  shows "\<exists>pd0. (k, pd0) \<in> set (pluginDevices s) \<and> pd_id pd = pd_id pd0 \<and> nativeId pd = nativeId pd0
          \<and> getProvidedInterfaces pd = getProvidedInterfaces pd0"
proof -
  from assms have "(k, pd) \<in> set (AList.map_entry i (\<lambda>pluginDevice. snd (setState pluginDevice P_mixins (VMixins [])))
                      (pluginDevices s))"
    by (simp add: clearMixins_def)
  from map_entry_entries[OF this] show ?thesis
    by (auto simp: setState_fields getProvidedInterfaces_setState)
qed

lemma clearMixins_keeps:
  "rootsMarked s \<Longrightarrow> rootsMarked (clearMixins i s)" "wfTable s \<Longrightarrow> wfTable (clearMixins i s)"
proof -
  show "rootsMarked (clearMixins i s)" if "rootsMarked s"
    unfolding rootsMarked_def
  proof (intro ballI, clarify)
    fix k pd assume "(k, pd) \<in> set (pluginDevices (clearMixins i s))" "nativeId pd = None"
    with clearMixins_entries[of k pd i s] that show "ScryptedPlugin \<in> set (getProvidedInterfaces pd)"
      unfolding rootsMarked_def by fastforce
  qed
  show "wfTable (clearMixins i s)" if "wfTable s"
    unfolding wfTable_def
  proof (intro conjI ballI, goal_cases)
    case 1
    from that show ?case by (simp add: wfTable_def clearMixins_def distinct_map_entry)
  next
    case (2 x)
    obtain k pd where x: "x = (k, pd)" by (cases x)
    with 2 clearMixins_entries[of k pd i s] that show ?case
      unfolding wfTable_def by fastforce
  qed
qed

lemma clearMixinCycles_keeps:
  "(rootsMarked s \<longrightarrow> rootsMarked (clearMixinCycles ids s)) \<and> (wfTable s \<longrightarrow> wfTable (clearMixinCycles ids s))"
  by (induction ids arbitrary: s) (simp_all add: clearMixins_keeps)

subsection \<open>The third loop\<close>

lemma killPlugin_table: "pluginDevices (killPlugin pid s) = pluginDevices s"
  by (simp add: killPlugin_def killHost_def split: option.splits)

lemma runPlugin_table: "pluginDevices (snd (runPlugin plugin s)) = pluginDevices s"
proof -
  let ?pid = "plugin_id plugin"
  let ?s1 = "killPlugin ?pid s"
  let ?pds = "findPluginDevices ?s1 ?pid"
  let ?s2 = "fold (\<lambda>pluginDevice. invalidatePluginDevice (pd_id pluginDevice)) ?pds ?s1"
  let ?s3 = "?s2\<lparr>hosts := hosts ?s2 @ [\<lparr>host_pluginId = ?pid, killed = False\<rparr>]\<rparr>"
  let ?s4 = "?s3\<lparr>plugins := setProperty ?pid (length (hosts ?s2)) (plugins ?s3)\<rparr>"
  let ?s5 = "fold (\<lambda>pluginDevice. probeDevice (pd_id pluginDevice)) ?pds ?s4"
  have r: "runPlugin plugin s = (length (hosts ?s2), ?s5)" by (simp add: runPlugin_def Let_def)
  have s2: "sameSupervisor ?s1 ?s2" by (rule fold_same) (rule invalidatePluginDevice_same)
  have s5: "sameSupervisor ?s4 ?s5" by (rule fold_same) (rule probeDevice_same)
  from s2 s5 show ?thesis unfolding r by (simp add: sameSupervisor_def killPlugin_table)
qed

lemma startPlugin_table:
  "pluginDevices (startPlugin plugin s) = pluginDevices s
   \<or> (\<exists>k pd pd'. (k, pd) \<in> set (pluginDevices s)
         \<and> pluginDevices (startPlugin plugin s) = setProperty (pd_id pd) pd' (pluginDevices s)
         \<and> pd_id pd' = pd_id pd \<and> nativeId pd' = nativeId pd
         \<and> getProvidedInterfaces pd' = getProvidedInterfaces pd \<and> getMixins pd' = getMixins pd)"
proof (cases "findPluginDevice s (plugin_id plugin) None")
  case None
  then show ?thesis by (simp add: startPlugin_def)
next
  case (Some pd)
  then have "pd \<in> set (map snd (pluginDevices s))"
    unfolding findPluginDevice_def by (metis find_Some_iff nth_mem)
  then obtain k where k: "(k, pd) \<in> set (pluginDevices s)" by auto
  let ?pd' = "snd (setState pd P_info (VInfo (packageName plugin) (packageVersion plugin)))"
  have "pluginDevices (startPlugin plugin s) = setProperty (pd_id pd) ?pd' (pluginDevices s)"
    by (simp add: startPlugin_def Some runPlugin_table storeDevice_def setState_fields)
  moreover have "pd_id ?pd' = pd_id pd" "nativeId ?pd' = nativeId pd"
    "getProvidedInterfaces ?pd' = getProvidedInterfaces pd" "getMixins ?pd' = getMixins pd"
    by (simp_all add: setState_fields getProvidedInterfaces_setState getMixins_setState)
  ultimately show ?thesis using k by blast
qed

lemma startPlugin_keeps:
  "rootsMarked s \<Longrightarrow> rootsMarked (startPlugin plugin s)"
  "wfTable s \<Longrightarrow> wfTable (startPlugin plugin s)"
  "wfTable s \<Longrightarrow> fst ` set (pluginDevices (startPlugin plugin s)) = fst ` set (pluginDevices s)"
  "wfTable s \<Longrightarrow> mixinsOf (startPlugin plugin s) i = mixinsOf s i"
proof -
  from startPlugin_table[of plugin s] consider "pluginDevices (startPlugin plugin s) = pluginDevices s"
    | k pd pd' where "(k, pd) \<in> set (pluginDevices s)"
        "pluginDevices (startPlugin plugin s) = setProperty (pd_id pd) pd' (pluginDevices s)"
        "pd_id pd' = pd_id pd" "nativeId pd' = nativeId pd"
        "getProvidedInterfaces pd' = getProvidedInterfaces pd" "getMixins pd' = getMixins pd"
    by blast
  note c = this
  show "rootsMarked (startPlugin plugin s)" if "rootsMarked s"
  using c proof cases
    case 1
    with that show ?thesis by (simp add: rootsMarked_def)
  next
    case 2
    from that 2(1) have "nativeId pd = None \<longrightarrow> ScryptedPlugin \<in> set (getProvidedInterfaces pd)"
      unfolding rootsMarked_def by fastforce
    with 2 show ?thesis by (intro rootsMarked_update[OF that 2(2)]) simp
  qed
  show "wfTable (startPlugin plugin s)" if "wfTable s"
  using c proof cases
    case 1
    with that show ?thesis by (simp add: wfTable_def)
  next
    case 2
    from 2(2,3) have "pluginDevices (startPlugin plugin s) = setProperty (pd_id pd') pd' (pluginDevices s)"
      by simp
    from wfTable_update[OF that this] show ?thesis .
  qed
  show "fst ` set (pluginDevices (startPlugin plugin s)) = fst ` set (pluginDevices s)" if "wfTable s"
  using c proof cases
    case 1
    then show ?thesis by simp
  next
    case 2
    from that 2(1) have "pd_id pd = k" unfolding wfTable_def by auto
    with 2(1) have "pd_id pd \<in> fst ` set (pluginDevices s)" by force
    then show ?thesis unfolding 2(2) setProperty_dom by auto
  qed
  show "mixinsOf (startPlugin plugin s) i = mixinsOf s i" if "wfTable s"
  using c proof cases
    case 1
    then show ?thesis by (simp add: mixinsOf_def findPluginDeviceById_def)
  next
    case 2
    from that 2(1) have "pd_id pd = k" "distinct (map fst (pluginDevices s))" unfolding wfTable_def by auto
    with 2(1) have "map_of (pluginDevices s) (pd_id pd) = Some pd" by simp
    then show ?thesis
      unfolding mixinsOf_def findPluginDeviceById_def 2(2) by (simp add: setProperty_map_of 2(6))
  qed
qed

lemma startPlugins_keeps:
  "(rootsMarked s \<longrightarrow> rootsMarked (fold startPlugin ps s))
   \<and> (wfTable s \<longrightarrow> wfTable (fold startPlugin ps s)
        \<and> fst ` set (pluginDevices (fold startPlugin ps s)) = fst ` set (pluginDevices s)
        \<and> (\<forall>i. mixinsOf (fold startPlugin ps s) i = mixinsOf s i))"
proof (induction ps arbitrary: s)
  case Nil
  then show ?case by simp
next
  case (Cons p ps)
  from Cons[of "startPlugin p s"] startPlugin_keeps[of s p] show ?case by simp
qed

lemma start_phases:
  assumes "start s = Inr s'"
  obtains s1 where "loadDevices (map snd (deviceRecords (datastore s))) s = Inr s1"
    "s' = fold startPlugin (map snd (pluginRecords (datastore (clearMixinCycles (map fst (pluginDevices s1)) s1))))
            (clearMixinCycles (map fst (pluginDevices s1)) s1)"
  using assms unfolding start_def by (auto simp: Let_def split: sum.splits)


lemma start_mixins:
  assumes "start s = Inr s'" "wfTable s"
  shows "\<exists>s1. loadDevices (map snd (deviceRecords (datastore s))) s = Inr s1
     \<and> (\<forall>i. \<not> hasMixinCycle s' i)
     \<and> (\<forall>i. mixinsOf s' i = mixinsOf s1 i \<or> (mixinsOf s' i = [] \<and> hasMixinCycle s1 i))"
proof -
  from assms(1) obtain s1 where s1: "loadDevices (map snd (deviceRecords (datastore s))) s = Inr s1"
    and s': "s' = fold startPlugin (map snd (pluginRecords (datastore (clearMixinCycles (map fst (pluginDevices s1)) s1))))
            (clearMixinCycles (map fst (pluginDevices s1)) s1)"
    by (rule start_phases)
  let ?s2 = "clearMixinCycles (map fst (pluginDevices s1)) s1"
  from loadDevices_keeps[OF s1] assms(2) have "wfTable s1" by simp
  with clearMixinCycles_keeps have wf2: "wfTable ?s2" by blast
  from startPlugins_keeps wf2 have k3: "fst ` set (pluginDevices s') = fst ` set (pluginDevices ?s2)"
    and m3: "\<And>i. mixinsOf s' i = mixinsOf ?s2 i"
    unfolding s' by blast+
  have off2: "\<not> hasMixinCycle ?s2 i" for i
    by (rule clearMixinCycles_acyclic) simp
  have "set (mixinEdges s') \<subseteq> set (mixinEdges ?s2)"
    by (rule edges_mono[OF k3]) (simp add: m3)
  from cycle_mono[OF this] off2 have off: "\<forall>i. \<not> hasMixinCycle s' i" by blast
  from clearMixinCycles_props[of "map fst (pluginDevices s1)" s1] m3
  have "\<forall>i. mixinsOf s' i = mixinsOf s1 i \<or> (mixinsOf s' i = [] \<and> hasMixinCycle s1 i)" by simp
  with s1 off show ?thesis by blast
qed




lemma clearMixinCycles_append:
  "clearMixinCycles (pre @ post) s = clearMixinCycles post (clearMixinCycles pre s)"
  by (induction pre arbitrary: s) simp_all

lemma clearMixinCycles_other:
  "k \<notin> set ids \<Longrightarrow> mixinsOf (clearMixinCycles ids s) k = mixinsOf s k"
  by (induction ids arbitrary: s) (simp_all add: clearMixins_mixinsOf)

lemma clearMixinCycles_turn:
  assumes "i \<notin> set pre" "i \<notin> set post"
  shows "mixinsOf (clearMixinCycles (pre @ i # post) s) i
           = (if hasMixinCycle (clearMixinCycles pre s) i then [] else mixinsOf s i)"
proof -
  let ?sp = "clearMixinCycles pre s"
  let ?si = "if hasMixinCycle ?sp i then clearMixins i ?sp else ?sp"
  have "clearMixinCycles (pre @ i # post) s = clearMixinCycles post ?si"
    by (simp add: clearMixinCycles_append)
  then have "mixinsOf (clearMixinCycles (pre @ i # post) s) i = mixinsOf ?si i"
    using clearMixinCycles_other[OF assms(2)] by simp
  also have "\<dots> = (if hasMixinCycle ?sp i then [] else mixinsOf ?sp i)"
    by (simp add: clearMixins_mixinsOf)
  also have "mixinsOf ?sp i = mixinsOf s i" by (rule clearMixinCycles_other[OF assms(1)])
  finally show ?thesis .
qed

lemma clearMixinCycles_keys:
  "fst ` set (pluginDevices (clearMixinCycles ids s)) = fst ` set (pluginDevices s)"
  using clearMixinCycles_props[of ids s] by blast

lemma two_cycle:
  assumes d: "distinct (pre @ x # mid @ y # post)"
    and keys: "x \<in> fst ` set (pluginDevices s)" "y \<in> fst ` set (pluginDevices s)"
    and mx: "y \<in> set (mixinsOf s x)" and my: "mixinsOf s y = [x]"
  shows "hasMixinCycle (clearMixinCycles pre s) x"
    "\<not> hasMixinCycle (clearMixinCycles (pre @ x # mid) s) y"
proof -
  let ?sp = "clearMixinCycles pre s"
  from d have nx: "x \<notin> set pre" "x \<notin> set mid" and ny: "y \<notin> set pre" "y \<notin> set (pre @ x # mid)" and xy: "x \<noteq> y"
    by auto
  have "mixinsOf ?sp x = mixinsOf s x" "mixinsOf ?sp y = [x]"
    using clearMixinCycles_other[OF nx(1)] clearMixinCycles_other[OF ny(1)] my by simp_all
  with mx keys have "(x, y) \<in> set (mixinEdges ?sp)" "(y, x) \<in> set (mixinEdges ?sp)"
    unfolding mixinEdges_set clearMixinCycles_keys by simp_all
  then show cx: "hasMixinCycle ?sp x" unfolding hasMixinCycle_def by (meson trancl.simps)
  let ?sy = "clearMixinCycles (pre @ x # mid) s"
  have ox: "mixinsOf ?sy x = []"
    using clearMixinCycles_turn[OF nx, of s] cx by simp
  have oy: "mixinsOf ?sy y = [x]"
    using clearMixinCycles_other[OF ny(2), of s] my by simp
  show "\<not> hasMixinCycle ?sy y"
  proof
    assume "hasMixinCycle ?sy y"
    then have "(y, y) \<in> (set (mixinEdges ?sy))\<^sup>+" by (simp add: hasMixinCycle_def)
    then obtain z where z: "(y, z) \<in> set (mixinEdges ?sy)" "(z, y) \<in> (set (mixinEdges ?sy))\<^sup>*"
      by (meson tranclD)
    from z(1) oy have "z = x" unfolding mixinEdges_set by simp
    with z(2) xy have "(x, y) \<in> (set (mixinEdges ?sy))\<^sup>+" by (simp add: rtrancl_eq_or_trancl)
    then obtain w where "(x, w) \<in> set (mixinEdges ?sy)" by (meson tranclD)
    with ox show False unfolding mixinEdges_set by simp
  qed
qed

lemma loadDevices_ordered:
  "loadDevices pds s = Inr s' \<Longrightarrow> ownPropertyOrder (map fst (pluginDevices s))
     \<Longrightarrow> ownPropertyOrder (map fst (pluginDevices s'))"
proof (induction pds arbitrary: s)
  case Nil
  then show ?case by simp
next
  case (Cons pd pds)
  then obtain s1 where s1: "loadDevice pd s = Inr s1" "loadDevices pds s1 = Inr s'"
    by (auto split: sum.splits)
  from loadDevice_table[OF s1(1)] Cons.prems(2) have "ownPropertyOrder (map fst (pluginDevices s1))"
    by (auto simp: setProperty_ordered)
  from Cons.IH[OF s1(2) this] show ?case .
qed

lemma startPlugin_datastore: "datastore (startPlugin plugin s) = datastore s"
  by (simp add: startPlugin_def storeDevice_def runPlugin_frame split: option.splits)

lemma startPlugins_datastore: "datastore (fold startPlugin ps s) = datastore s"
  by (induction ps arbitrary: s) (simp_all add: startPlugin_datastore)

lemma clearMixinCycles_datastore: "datastore (clearMixinCycles ids s) = datastore s"
  by (induction ids arbitrary: s) (simp_all add: clearMixins_def)

lemma start_structure:
  assumes "start s = Inr s'" "wfTable s"
  obtains s1 where "loadDevices (map snd (deviceRecords (datastore s))) s = Inr s1" "wfTable s1"
    "\<forall>i. mixinsOf s' i = mixinsOf (clearMixinCycles (map fst (pluginDevices s1)) s1) i"
    "datastore s' = datastore s1" "\<forall>i. \<not> hasMixinCycle s' i"
proof -
  from assms(1) obtain s1 where s1: "loadDevices (map snd (deviceRecords (datastore s))) s = Inr s1"
    and s': "s' = fold startPlugin (map snd (pluginRecords (datastore (clearMixinCycles (map fst (pluginDevices s1)) s1))))
            (clearMixinCycles (map fst (pluginDevices s1)) s1)"
    by (rule start_phases)
  let ?s2 = "clearMixinCycles (map fst (pluginDevices s1)) s1"
  from loadDevices_keeps[OF s1] assms(2) have wf1: "wfTable s1" by simp
  with clearMixinCycles_keeps have wf2: "wfTable ?s2" by blast
  from startPlugins_keeps wf2 have m3: "\<forall>i. mixinsOf s' i = mixinsOf ?s2 i"
    unfolding s' by blast
  have ds: "datastore s' = datastore s1"
    unfolding s' by (simp add: startPlugins_datastore clearMixinCycles_datastore)
  from start_mixins[OF assms] have off: "\<forall>i. \<not> hasMixinCycle s' i" by blast
  show thesis by (rule that[OF s1 wf1 m3 ds off])
qed

text \<open>
  C6, as the code has it. Let start complete, from a table keyed by device id. Then no
  device of the table has a mixin cycle, so the graph of the mixins in the table has no
  cycle at all. The second loop walks the table as the first loop left it, in the order
  of its keys, which is the order of an object's own properties if the table was in
  that order before. The mixins of a device are empty afterwards if the device has a
  mixin cycle when its turn comes, in the table as the turns before have left it;
  otherwise they are what the first loop left. So of two devices that mix each other,
  the second one having no other mixin, the first is cleared and the second keeps its
  mixins. The second and the third loop write nothing to the store.
\<close>

theorem start_clears_mixin_cycles:
  assumes "wfTable s" "start s = Inr s'"
  shows "(\<forall>i. \<not> hasMixinCycle s' i) \<and> acyclic (set (mixinEdges s'))
     \<and> (\<exists>s1. loadDevices (map snd (deviceRecords (datastore s))) s = Inr s1
          \<and> (ownPropertyOrder (map fst (pluginDevices s)) \<longrightarrow> ownPropertyOrder (map fst (pluginDevices s1)))
          \<and> (\<forall>pre i post. map fst (pluginDevices s1) = pre @ i # post \<longrightarrow>
                 mixinsOf s' i = (if hasMixinCycle (clearMixinCycles pre s1) i then [] else mixinsOf s1 i))
          \<and> (\<forall>pre x mid y post.
                 map fst (pluginDevices s1) = pre @ x # mid @ y # post
                   \<and> y \<in> set (mixinsOf s1 x) \<and> mixinsOf s1 y = [x]
                 \<longrightarrow> mixinsOf s' x = [] \<and> mixinsOf s' y = [x])
          \<and> datastore s' = datastore s1)"
proof -
  from assms(2,1) obtain s1 where s1: "loadDevices (map snd (deviceRecords (datastore s))) s = Inr s1"
    and wf1: "wfTable s1"
    and m3': "\<forall>i. mixinsOf s' i = mixinsOf (clearMixinCycles (map fst (pluginDevices s1)) s1) i"
    and ds: "datastore s' = datastore s1" and off: "\<forall>i. \<not> hasMixinCycle s' i"
    by (rule start_structure)
  from m3' have m3: "mixinsOf s' i = mixinsOf (clearMixinCycles (map fst (pluginDevices s1)) s1) i" for i
    by simp
  from off have ac: "acyclic (set (mixinEdges s'))" by (simp add: acyclic_def hasMixinCycle_def)
  from wf1 have dist: "distinct (map fst (pluginDevices s1))" by (simp add: wfTable_def)
  have ord: "ownPropertyOrder (map fst (pluginDevices s)) \<longrightarrow> ownPropertyOrder (map fst (pluginDevices s1))"
    using loadDevices_ordered[OF s1] by blast
  have turn: "mixinsOf s' i = (if hasMixinCycle (clearMixinCycles pre s1) i then [] else mixinsOf s1 i)"
    if "map fst (pluginDevices s1) = pre @ i # post" for pre i post
  proof -
    from dist that have "i \<notin> set pre" "i \<notin> set post" by auto
    from clearMixinCycles_turn[OF this, of s1] show ?thesis unfolding m3 that .
  qed
  have two: "mixinsOf s' x = [] \<and> mixinsOf s' y = [x]"
    if k: "map fst (pluginDevices s1) = pre @ x # mid @ y # post"
      and mx: "y \<in> set (mixinsOf s1 x)" and my: "mixinsOf s1 y = [x]" for pre x mid y post
  proof -
    from dist k have d: "distinct (pre @ x # mid @ y # post)" by simp
    have "x \<in> set (map fst (pluginDevices s1))" "y \<in> set (map fst (pluginDevices s1))"
      unfolding k by simp_all
    then have keys: "x \<in> fst ` set (pluginDevices s1)" "y \<in> fst ` set (pluginDevices s1)" by simp_all
    note c = two_cycle[OF d keys mx my]
    from turn[OF k] c(1) have "mixinsOf s' x = []" by simp
    moreover have "map fst (pluginDevices s1) = (pre @ x # mid) @ y # post" using k by simp
    from turn[OF this] c(2) my have "mixinsOf s' y = [x]" by simp
    ultimately show ?thesis by simp
  qed
  have c3: "\<forall>pre i post. map fst (pluginDevices s1) = pre @ i # post \<longrightarrow>
                 mixinsOf s' i = (if hasMixinCycle (clearMixinCycles pre s1) i then [] else mixinsOf s1 i)"
    using turn by blast
  have c4: "\<forall>pre x mid y post.
                 map fst (pluginDevices s1) = pre @ x # mid @ y # post
                   \<and> y \<in> set (mixinsOf s1 x) \<and> mixinsOf s1 y = [x]
                 \<longrightarrow> mixinsOf s' x = [] \<and> mixinsOf s' y = [x]"
    using two by blast
  have ex: "\<exists>s1. loadDevices (map snd (deviceRecords (datastore s))) s = Inr s1
          \<and> (ownPropertyOrder (map fst (pluginDevices s)) \<longrightarrow> ownPropertyOrder (map fst (pluginDevices s1)))
          \<and> (\<forall>pre i post. map fst (pluginDevices s1) = pre @ i # post \<longrightarrow>
                 mixinsOf s' i = (if hasMixinCycle (clearMixinCycles pre s1) i then [] else mixinsOf s1 i))
          \<and> (\<forall>pre x mid y post.
                 map fst (pluginDevices s1) = pre @ x # mid @ y # post
                   \<and> y \<in> set (mixinsOf s1 x) \<and> mixinsOf s1 y = [x]
                 \<longrightarrow> mixinsOf s' x = [] \<and> mixinsOf s' y = [x])
          \<and> datastore s' = datastore s1"
    by (rule exI[of _ s1]) (intro conjI s1 ord c3 c4 ds)
  show ?thesis by (intro conjI off ac ex)
qed

theorem start_clears_mixin_cycles_witness:
  "wfTable restartStore \<and> ownPropertyOrder (map fst (pluginDevices restartStore))
   \<and> (\<exists>s1 s'. loadDevices (map snd (deviceRecords (datastore restartStore))) restartStore = Inr s1
          \<and> start restartStore = Inr s'
          \<and> map fst (pluginDevices s1) = [''9'', ''10''] \<and> ownPropertyOrder (map fst (pluginDevices s1))
          \<and> mixinsOf s1 ''9'' = [''10''] \<and> mixinsOf s1 ''10'' = [''9'']
          \<and> \<not> hasMixinCycle s' ''9'' \<and> \<not> hasMixinCycle s' ''10'' \<and> acyclic (set (mixinEdges s'))
          \<and> mixinsOf s' ''9'' = [] \<and> mixinsOf s' ''10'' = [''9'']
          \<and> datastore s' = datastore s1)"
proof -
  have wf: "wfTable restartStore" by code_simp
  have o0: "ownPropertyOrder (map fst (pluginDevices restartStore))" by code_simp
  have "case loadDevices (map snd (deviceRecords (datastore restartStore))) restartStore of Inl e \<Rightarrow> False
        | Inr s1 \<Rightarrow> map fst (pluginDevices s1) = [''9'', ''10'']
            \<and> mixinsOf s1 ''9'' = [''10''] \<and> mixinsOf s1 ''10'' = [''9'']"
    by code_simp
  then obtain s1 where s1: "loadDevices (map snd (deviceRecords (datastore restartStore))) restartStore = Inr s1"
    "map fst (pluginDevices s1) = [''9'', ''10'']" "mixinsOf s1 ''9'' = [''10'']" "mixinsOf s1 ''10'' = [''9'']"
    by (cases "loadDevices (map snd (deviceRecords (datastore restartStore))) restartStore") auto
  have "case start restartStore of Inl e \<Rightarrow> False | Inr s' \<Rightarrow> True" by code_simp
  then obtain s' where s': "start restartStore = Inr s'" by (cases "start restartStore") auto
  from start_clears_mixin_cycles[OF wf s']
  have off: "\<forall>i. \<not> hasMixinCycle s' i" and ac: "acyclic (set (mixinEdges s'))"
    and "\<exists>s1. loadDevices (map snd (deviceRecords (datastore restartStore))) restartStore = Inr s1
          \<and> (ownPropertyOrder (map fst (pluginDevices restartStore)) \<longrightarrow> ownPropertyOrder (map fst (pluginDevices s1)))
          \<and> (\<forall>pre i post. map fst (pluginDevices s1) = pre @ i # post \<longrightarrow>
                 mixinsOf s' i = (if hasMixinCycle (clearMixinCycles pre s1) i then [] else mixinsOf s1 i))
          \<and> (\<forall>pre x mid y post.
                 map fst (pluginDevices s1) = pre @ x # mid @ y # post
                   \<and> y \<in> set (mixinsOf s1 x) \<and> mixinsOf s1 y = [x]
                 \<longrightarrow> mixinsOf s' x = [] \<and> mixinsOf s' y = [x])
          \<and> datastore s' = datastore s1"
    by blast+
  then obtain t1 where t1: "loadDevices (map snd (deviceRecords (datastore restartStore))) restartStore = Inr t1"
    and ord': "ownPropertyOrder (map fst (pluginDevices restartStore)) \<longrightarrow> ownPropertyOrder (map fst (pluginDevices t1))"
    and two': "\<forall>pre x mid y post.
                 map fst (pluginDevices t1) = pre @ x # mid @ y # post
                   \<and> y \<in> set (mixinsOf t1 x) \<and> mixinsOf t1 y = [x]
                 \<longrightarrow> mixinsOf s' x = [] \<and> mixinsOf s' y = [x]"
    and ds': "datastore s' = datastore t1"
    by blast
  from t1 s1(1) have eq: "t1 = s1" by simp
  from ord' o0 have ord: "ownPropertyOrder (map fst (pluginDevices s1))" unfolding eq by simp
  note two = two'[unfolded eq] and ds = ds'[unfolded eq]
  have "map fst (pluginDevices s1) = [] @ ''9'' # [] @ ''10'' # []
      \<and> ''10'' \<in> set (mixinsOf s1 ''9'') \<and> mixinsOf s1 ''10'' = [''9'']"
    using s1 by simp
  with two have m: "mixinsOf s' ''9'' = [] \<and> mixinsOf s' ''10'' = [''9'']" by blast
  have "loadDevices (map snd (deviceRecords (datastore restartStore))) restartStore = Inr s1
          \<and> start restartStore = Inr s'
          \<and> map fst (pluginDevices s1) = [''9'', ''10''] \<and> ownPropertyOrder (map fst (pluginDevices s1))
          \<and> mixinsOf s1 ''9'' = [''10''] \<and> mixinsOf s1 ''10'' = [''9'']
          \<and> \<not> hasMixinCycle s' ''9'' \<and> \<not> hasMixinCycle s' ''10'' \<and> acyclic (set (mixinEdges s'))
          \<and> mixinsOf s' ''9'' = [] \<and> mixinsOf s' ''10'' = [''9'']
          \<and> datastore s' = datastore s1"
    using s1 s' ord off ac m ds by simp
  then have ex: "\<exists>s1 s'. loadDevices (map snd (deviceRecords (datastore restartStore))) restartStore = Inr s1
          \<and> start restartStore = Inr s'
          \<and> map fst (pluginDevices s1) = [''9'', ''10''] \<and> ownPropertyOrder (map fst (pluginDevices s1))
          \<and> mixinsOf s1 ''9'' = [''10''] \<and> mixinsOf s1 ''10'' = [''9'']
          \<and> \<not> hasMixinCycle s' ''9'' \<and> \<not> hasMixinCycle s' ''10'' \<and> acyclic (set (mixinEdges s'))
          \<and> mixinsOf s' ''9'' = [] \<and> mixinsOf s' ''10'' = [''9'']
          \<and> datastore s' = datastore s1"
    by (intro exI[of _ s1] exI[of _ s'])
  show ?thesis by (intro conjI wf o0 ex)
qed

text \<open>
  The claim as it was stated fails on two devices that mix each other: after the first
  loop each has the other as its mixin, and after start the second still has. The store
  yields device 10 before device 9; the check takes device 9 first.
\<close>

theorem start_clears_mixin_cycles_counterexample:
  "(case loadDevices (map snd (deviceRecords (datastore restartStore))) restartStore of
      Inl e \<Rightarrow> False
    | Inr s1 \<Rightarrow> mixinsOf s1 ''9'' = [''10''] \<and> mixinsOf s1 ''10'' = [''9''])
   \<and> (case start restartStore of
        Inl e \<Rightarrow> False
      | Inr s' \<Rightarrow> mixinsOf s' ''9'' = [] \<and> mixinsOf s' ''10'' = [''9'']
          \<and> map (\<lambda>(k, pluginDevice). (k, getMixins pluginDevice)) (deviceRecords (datastore s'))
              = [(''10'', [Some ''9'']), (''9'', [Some ''10''])])"
  by code_simp

section \<open>Unhandled rejections: results\<close>

text \<open>
  C9. An unhandled rejection whose reason was constructed by RPCResultError or by
  PluginError is logged as a warning, and nothing else, and the host continues; the
  reason of any other class (or with no constructor at all) is thrown again.
\<close>

theorem unhandledRejection_classes:
  "(constructor error \<in> {Some RPCResultError, Some PluginError} \<longrightarrow>
      unhandledRejection error = ([ConsoleWarn ''unhandled rejection of RPC Result''], Continues))
   \<and> (constructor error \<notin> {Some RPCResultError, Some PluginError} \<longrightarrow>
      snd (unhandledRejection error) = Throws error)"
  by (simp add: unhandledRejection_def)

theorem unhandledRejection_classes_witness:
  "unhandledRejection \<lparr>constructor = Some PluginError, message = ''timeout''\<rparr>
     = ([ConsoleWarn ''unhandled rejection of RPC Result''], Continues)
   \<and> snd (unhandledRejection \<lparr>constructor = Some (OtherClass ''TypeError''), message = ''x''\<rparr>)
     = Throws \<lparr>constructor = Some (OtherClass ''TypeError''), message = ''x''\<rparr>
   \<and> snd (unhandledRejection \<lparr>constructor = None, message = []\<rparr>)
     = Throws \<lparr>constructor = None, message = []\<rparr>"
  using unhandledRejection_classes [of "\<lparr>constructor = Some PluginError, message = ''timeout''\<rparr>"]
    unhandledRejection_classes [of "\<lparr>constructor = Some (OtherClass ''TypeError''), message = ''x''\<rparr>"]
    unhandledRejection_classes [of "\<lparr>constructor = None, message = []\<rparr>"]
  by simp

end
